theory Spec2Isabelle
  imports Main "HOL-Library.Word"
begin

section \<open>JavaScript strings\<close>

text \<open>
  A JavaScript string is a sequence of UTF-16 code units. String literals of the
  source are written as Isabelle strings and converted with \<open>utf16\<close>.
\<close>

type_synonym jschar = "16 word"

type_synonym jsstring = "jschar list"

definition utf16 :: "string \<Rightarrow> jsstring" where
  "utf16 s = map of_char s"

definition LF :: jschar where
  "LF = 0x0A"

text \<open>
  \<open>String.prototype.trim\<close> strips the code units of the WhiteSpace and
  LineTerminator productions of ECMAScript from both ends.
\<close>

definition isWhiteSpace :: "jschar \<Rightarrow> bool" where
  "isWhiteSpace c \<longleftrightarrow>
     c = 0x09 \<or> c = 0x0A \<or> c = 0x0B \<or> c = 0x0C \<or> c = 0x0D \<or> c = 0x20 \<or>
     c = 0xA0 \<or> c = 0x1680 \<or> (0x2000 \<le> c \<and> c \<le> 0x200A) \<or>
     c = 0x2028 \<or> c = 0x2029 \<or> c = 0x202F \<or> c = 0x205F \<or> c = 0x3000 \<or>
     c = 0xFEFF"

definition trim :: "jsstring \<Rightarrow> jsstring" where
  "trim s = rev (dropWhile isWhiteSpace (rev (dropWhile isWhiteSpace s)))"

definition endsWith :: "jsstring \<Rightarrow> jsstring \<Rightarrow> bool" where
  "endsWith s t \<longleftrightarrow> length t \<le> length s \<and> drop (length s - length t) s = t"

text \<open>
  \<open>s.split(/\n/gm)\<close>: the pieces of \<open>s\<close> between its line feeds. The empty
  string gives one empty piece, and a trailing line feed gives a last empty piece.
\<close>

fun split_LF :: "jsstring \<Rightarrow> jsstring list" where
  "split_LF [] = [[]]"
| "split_LF (c # cs) =
     (if c = LF then [] # split_LF cs
      else (case split_LF cs of
              [] \<Rightarrow> [[c]]
            | l # ls \<Rightarrow> (c # l) # ls))"

text \<open>\<open>lines.join(sep)\<close>\<close>

fun join :: "jsstring list \<Rightarrow> jsstring \<Rightarrow> jsstring" where
  "join [] sep = []"
| "join [l] sep = l"
| "join (l # ls) sep = l @ sep @ join ls sep"

section \<open>convertNewlinesToBr\<close>

text \<open>
  The \<open>for\<close> loop of \<open>convertNewlinesToBr\<close>: \<open>i\<close> runs over the indices of
  \<open>lines\<close>; a line whose trimmed text ends with \<open>>\<close> is skipped
  (\<open>continue\<close>), every other line gets \<open><br>\<close> appended in place.
\<close>

function convertNewlinesToBr_loop :: "nat \<Rightarrow> jsstring list \<Rightarrow> jsstring list" where
  "convertNewlinesToBr_loop i lines =
     (if i < length lines then
        (if endsWith (trim (lines ! i)) (utf16 ''>'')
         then convertNewlinesToBr_loop (i + 1) lines
         else convertNewlinesToBr_loop (i + 1) (lines[i := lines ! i @ utf16 ''<br>'']))
      else lines)"
  by pat_completeness auto

termination
  by (relation "measure (\<lambda>(i, lines). length lines - i)") auto

declare convertNewlinesToBr_loop.simps [simp del]

definition convertNewlinesToBr :: "jsstring \<Rightarrow> jsstring" where
  "convertNewlinesToBr html = join (convertNewlinesToBr_loop 0 (split_LF html)) []"

text \<open>What the loop does to one line.\<close>

definition br_line :: "jsstring \<Rightarrow> jsstring" where
  "br_line l = (if endsWith (trim l) (utf16 ''>'') then l else l @ utf16 ''<br>'')"

section \<open>The context menu: Menu\<close>

subsection \<open>Callbacks of the embedding application\<close>

text \<open>
  A callback (\<open>() => void\<close>) runs in the embedding application, whose state is
  the parameter \<open>'w\<close>. It either returns, leaving a new state, or throws, and
  then the state it had reached is kept beside the exception.
\<close>

type_synonym exn = string

datatype 'w outcome = Returned 'w | Thrown exn 'w

type_synonym 'w callback = "'w \<Rightarrow> 'w outcome"

subsection \<open>Menu items\<close>

text \<open>
  The tagged union \<open>MenuItem\<close> with the fields that \<open>Menu\<close> reads:
  \<open>type\<close> (the constructor), \<open>key\<close>, \<open>isHidden\<close>, and for a button
  \<open>isDisabled\<close>, \<open>onClick\<close> and \<open>menu\<close> (the items of the nested menu).
  An optional boolean that is absent is \<open>False\<close>.
\<close>

datatype 'w MenuItem =
    Separator (key: jsstring) (isHidden: bool)
  | Button (key: jsstring) (isHidden: bool) (isDisabled: bool)
      (onClick: "'w callback option") (menu: "'w MenuItem list option")
  | Popup (key: jsstring) (isHidden: bool)

text \<open>\<open>items[i]\<close>: \<open>undefined\<close> (here \<open>None\<close>) outside the array, also at \<open>-1\<close>.\<close>

definition at_index :: "'a list \<Rightarrow> int \<Rightarrow> 'a option" where
  "at_index xs i = (if 0 \<le> i \<and> i < int (length xs) then Some (xs ! nat i) else None)"

subsection \<open>onAction and the callbacks handed to useFocus\<close>

text \<open>
  \<open>onAction(e, item)\<close>: the item's click handler, when there is an item and it
  has one, then \<open>onClose\<close>. There is no \<open>try\<close> around the handler, so an
  exception leaves \<open>onAction\<close> before \<open>onClose\<close> is reached.
  (\<open>e?.stopPropagation()\<close> touches the DOM event only.)
\<close>

definition onAction :: "'w callback \<Rightarrow> 'w MenuItem option \<Rightarrow> 'w callback" where
  "onAction onClose item w =
     (case (case item of None \<Rightarrow> None | Some it \<Rightarrow> onClick it) of
        None \<Rightarrow> onClose w
      | Some handler \<Rightarrow>
          (case handler w of
             Thrown e w' \<Rightarrow> Thrown e w'
           | Returned w' \<Rightarrow> onClose w'))"

text \<open>
  The second argument of \<open>useFocus\<close>, called when the focused item is confirmed
  from the keyboard: \<open>items[focusIndex]\<close>, when it is a button, goes to
  \<open>onAction\<close>.
\<close>

definition useFocus_onAction :: "'w callback \<Rightarrow> 'w MenuItem list \<Rightarrow> int \<Rightarrow> 'w callback" where
  "useFocus_onAction onClose items focusIndex w =
     (case at_index items focusIndex of
        Some (Button k h d oc m) \<Rightarrow> onAction onClose (Some (Button k h d oc m)) w
      | _ \<Rightarrow> Returned w)"

text \<open>The third argument of \<open>useFocus\<close>: \<open>() => onClose()\<close>.\<close>

definition useFocus_onClose :: "'w callback \<Rightarrow> 'w callback" where
  "useFocus_onClose onClose w = onClose w"

subsection \<open>The state of one menu level\<close>

text \<open>
  Modelled from the spec: \<open>useFocus\<close> (use-focus.ts is not among the sources)
  holds the focus index (or none, \<open>-1\<close>) and the submenu-open flag of one menu
  level and exposes a setter for each; a level starts with no focus and no submenu.

  The level also owns the ref \<open>hoverTimeout\<close>. \<open>setTimeout\<close> and
  \<open>clearTimeout\<close> are modelled with a clock \<open>now\<close> in milliseconds: the ref
  holds the pending timer with its deadline and what its closure captured (the index,
  whether the item has a menu, and \<open>isSubmenuOpen\<close> of the render that created
  the handler). A timer that has fired or was cleared is \<open>None\<close>; clearing it
  again does nothing, as \<open>clearTimeout\<close> on a stale handle does.
\<close>

record hover_timer =
  deadline :: nat
  t_index :: nat
  t_hasMenu :: bool
  t_isSubmenuOpen :: bool

record menu_state =
  focusIndex :: int
  isSubmenuOpen :: bool
  hoverTimeout :: "hover_timer option"
  now :: nat

definition initial_state :: menu_state where
  "initial_state = \<lparr>focusIndex = - 1, isSubmenuOpen = False, hoverTimeout = None, now = 0\<rparr>"

definition setFocusIndex :: "int \<Rightarrow> menu_state \<Rightarrow> menu_state" where
  "setFocusIndex i s = s\<lparr>focusIndex := i\<rparr>"

definition setIsSubmenuOpen :: "bool \<Rightarrow> menu_state \<Rightarrow> menu_state" where
  "setIsSubmenuOpen b s = s\<lparr>isSubmenuOpen := b\<rparr>"

definition clearTimeout :: "menu_state \<Rightarrow> menu_state" where
  "clearTimeout s = s\<lparr>hoverTimeout := None\<rparr>"

subsection \<open>The handlers of a rendered button\<close>

text \<open>The body of the \<open>setTimeout\<close> callback of \<open>onMouseEnter\<close>.\<close>

definition hoverCallback :: "hover_timer \<Rightarrow> menu_state \<Rightarrow> menu_state" where
  "hoverCallback t s =
     (let s1 = (if t_isSubmenuOpen t then setFocusIndex (int (t_index t)) s
                else setIsSubmenuOpen True s)
      in if \<not> t_hasMenu t then setIsSubmenuOpen False s1 else s1)"

definition onMouseEnter :: "'w MenuItem \<Rightarrow> nat \<Rightarrow> menu_state \<Rightarrow> menu_state" where
  "onMouseEnter item index s =
     (if isDisabled item then setFocusIndex (- 1) s
      else
        let s1 = (if \<not> isSubmenuOpen s then setFocusIndex (int index) s else s);
            s2 = clearTimeout s1
        in s2\<lparr>hoverTimeout :=
              Some \<lparr>deadline = now s + 200, t_index = index,
                    t_hasMenu = (menu item \<noteq> None),
                    t_isSubmenuOpen = isSubmenuOpen s\<rparr>\<rparr>)"

definition onMouseLeave :: "menu_state \<Rightarrow> menu_state" where
  "onMouseLeave s = clearTimeout s"

text \<open>
  The \<open>onClick\<close> given to \<open>MenuButton\<close>: a button with a nested menu takes
  the focus and opens its submenu, any other button goes to \<open>onAction\<close>. The
  result is the level's state and the outcome in the embedding application.
\<close>

definition onClick_button ::
  "'w callback \<Rightarrow> 'w MenuItem \<Rightarrow> nat \<Rightarrow> menu_state \<Rightarrow> 'w \<Rightarrow> menu_state \<times> 'w outcome" where
  "onClick_button onClose item index s w =
     (if menu item \<noteq> None
      then (setIsSubmenuOpen True (setFocusIndex (int index) s), Returned w)
      else (s, onAction onClose (Some item) w))"

text \<open>
  What that click does to the level's state alone (the first component above); a leaf
  button's click leaves the level as it is, and \<open>onClose\<close> is the owner's business.
\<close>

definition onClick_state :: "'w MenuItem \<Rightarrow> nat \<Rightarrow> menu_state \<Rightarrow> menu_state" where
  "onClick_state item index s =
     (if menu item \<noteq> None then setIsSubmenuOpen True (setFocusIndex (int index) s) else s)"

text \<open>The \<open>onClick\<close> given to a popup item's component: \<open>onAction(e)\<close>.\<close>

definition onClick_popup :: "'w callback \<Rightarrow> 'w callback" where
  "onClick_popup onClose w = onAction onClose None w"

subsection \<open>Rendering\<close>

text \<open>
  \<open>items.map(...)\<close>: a hidden item renders \<open>null\<close>; every other item renders
  one element, which keeps its index in \<open>items\<close>.
\<close>

definition rendered :: "'w MenuItem list \<Rightarrow> (nat \<times> 'w MenuItem) list" where
  "rendered items = filter (\<lambda>(index, item). \<not> isHidden item) (enumerate 0 items)"

text \<open>The item of the \<open>MenuButton\<close> rendered for an index, if there is one.\<close>

definition button_at :: "'w MenuItem list \<Rightarrow> nat \<Rightarrow> 'w MenuItem option" where
  "button_at items index =
     (case map_of (rendered items) index of
        Some (Button k h d oc m) \<Rightarrow> Some (Button k h d oc m)
      | _ \<Rightarrow> None)"

definition focusedItem :: "'w MenuItem list \<Rightarrow> menu_state \<Rightarrow> 'w MenuItem option" where
  "focusedItem items s = at_index items (focusIndex s)"

text \<open>
  The one conditional submenu of a level: rendered when the focused item is a button
  with a menu and \<open>isSubmenuOpen\<close> holds; its items are that menu's.
\<close>

definition subMenu :: "'w MenuItem list \<Rightarrow> menu_state \<Rightarrow> 'w MenuItem list option" where
  "subMenu items s =
     (case focusedItem items s of
        Some (Button k h d oc (Some sub)) \<Rightarrow> if isSubmenuOpen s then Some sub else None
      | _ \<Rightarrow> None)"

subsection \<open>Events of one level\<close>

text \<open>
  Pointer events reach the handlers of the rendered buttons only. \<open>Elapse d\<close> lets
  \<open>d\<close> milliseconds pass: a pending timer whose deadline is reached fires.
\<close>

datatype event = MouseEnter nat | MouseLeave nat | Click nat | Elapse nat

definition advance :: "nat \<Rightarrow> menu_state \<Rightarrow> menu_state" where
  "advance d s =
     (let s' = s\<lparr>now := now s + d\<rparr>
      in case hoverTimeout s of
           None \<Rightarrow> s'
         | Some t \<Rightarrow>
             if deadline t \<le> now s + d then hoverCallback t (s'\<lparr>hoverTimeout := None\<rparr>)
             else s')"

fun step :: "'w MenuItem list \<Rightarrow> event \<Rightarrow> menu_state \<Rightarrow> menu_state" where
  "step items (MouseEnter i) s =
     (case button_at items i of Some item \<Rightarrow> onMouseEnter item i s | None \<Rightarrow> s)"
| "step items (MouseLeave i) s =
     (case button_at items i of Some item \<Rightarrow> onMouseLeave s | None \<Rightarrow> s)"
| "step items (Click i) s =
     (case button_at items i of
        Some item \<Rightarrow> onClick_state item i s
      | None \<Rightarrow> s)"
| "step items (Elapse d) s = advance d s"

definition run :: "'w MenuItem list \<Rightarrow> event list \<Rightarrow> menu_state \<Rightarrow> menu_state" where
  "run items evs s = foldl (\<lambda>s ev. step items ev s) s evs"

subsection \<open>An example menu\<close>

text \<open>
  A menu for the examples: an enabled leaf, a separator, an enabled button with a nested
  menu, a disabled button and a hidden button.
\<close>

definition example_menu :: "nat MenuItem list" where
  "example_menu =
     [Button (utf16 ''new'') False False None None,
      Separator (utf16 ''sep'') False,
      Button (utf16 ''export'') False False None
        (Some [Button (utf16 ''pdf'') False False None None]),
      Button (utf16 ''delete'') False True None None,
      Button (utf16 ''secret'') True False None None]"

definition example_state :: menu_state where
  "example_state = \<lparr>focusIndex = 0, isSubmenuOpen = False, hoverTimeout = None, now = 1000\<rparr>"

definition example_dom :: "jsstring \<Rightarrow> nat option" where
  "example_dom elementId = (if elementId = utf16 ''export-menu-item'' then Some 7 else None)"

definition example_getPosition :: "nat \<Rightarrow> nat \<Rightarrow> int \<times> int" where
  "example_getPosition el anchor = (int anchor * 10, 220)"

subsection \<open>Hovering\<close>

text \<open>The pointer enters button \<open>i\<close>, stays for the times \<open>ds\<close>, and leaves.\<close>

definition hover_leave :: "nat \<Rightarrow> nat list \<Rightarrow> event list" where
  "hover_leave i ds = MouseEnter i # map Elapse ds @ [MouseLeave i]"

subsection \<open>Positioning the submenu\<close>

text \<open>
  The \<open>Flex\<close> around the nested menu is rendered with \<open>visibility: "hidden"\<close>
  and no position. \<open>subMenuRef.current\<close> is \<open>None\<close> while it is not mounted,
  and else its DOM node with the inline style. React leaves the node's style alone on a
  re-render, since the \<open>style\<close> prop never changes, so what the effect wrote stays
  until the node is unmounted. A level has one such \<open>Flex\<close>: when the focus moves
  from one button with a menu to another while the submenu stays open, the condition of
  the \<open>Flex\<close> holds in both renders, and React keeps the node and renders the other
  menu inside it.

  \<open>getElementById\<close> (the document) and \<open>getPosition\<close> (utils/position is not
  among the sources) are parameters; \<open>'c\<close> is the type of a coordinate.
\<close>

datatype visibility = Hidden | Visible

record 'c style =
  visibility :: visibility
  top_px :: "'c option"
  left_px :: "'c option"

definition render_subMenuRef ::
  "'w MenuItem list \<Rightarrow> menu_state \<Rightarrow> 'el \<Rightarrow> ('el \<times> 'c style) option \<Rightarrow> ('el \<times> 'c style) option" where
  "render_subMenuRef items s fresh ref =
     (case subMenu items s of
        None \<Rightarrow> None
      | Some sub \<Rightarrow>
          (case ref of
             None \<Rightarrow> Some (fresh, \<lparr>visibility = Hidden, top_px = None, left_px = None\<rparr>)
           | Some mounted \<Rightarrow> Some mounted))"

text \<open>
  The \<open>useEffect\<close> on \<open>[isSubmenuOpen, focusIndex, items]\<close>. Each guard is an
  early \<open>return\<close>: nothing in the effect throws. The resolver has returned before
  the first of the three style writes, and nothing is painted between them, so they are
  one update of the style.
\<close>

definition positionEffect ::
  "(jsstring \<Rightarrow> 'el option) \<Rightarrow> ('el \<Rightarrow> 'el \<Rightarrow> 'c \<times> 'c) \<Rightarrow> 'w MenuItem list \<Rightarrow> menu_state \<Rightarrow>
   ('el \<times> 'c style) option \<Rightarrow> ('el \<times> 'c style) option" where
  "positionEffect getElementById getPosition items s ref =
     (case focusedItem items s of
        None \<Rightarrow> ref
      | Some item \<Rightarrow>
          (case ref of
             None \<Rightarrow> ref
           | Some (el, st) \<Rightarrow>
               (case getElementById (key item @ utf16 ''-menu-item'') of
                  None \<Rightarrow> ref
                | Some menuItemElement \<Rightarrow>
                    if \<not> isSubmenuOpen s then Some (el, st\<lparr>visibility := Hidden\<rparr>)
                    else
                      (case getPosition el menuItemElement of
                         (top', left') \<Rightarrow>
                           Some (el, st\<lparr>visibility := Visible, top_px := Some top',
                                         left_px := Some left'\<rparr>)))))"

text \<open>
  The anchor of the submenu is missing when there is no focused item
  (\<open>items[focusIndex]\<close> is \<open>undefined\<close>) or the document has no element for it.
\<close>

definition anchor_missing ::
  "(jsstring \<Rightarrow> 'el option) \<Rightarrow> 'w MenuItem list \<Rightarrow> menu_state \<Rightarrow> bool" where
  "anchor_missing getElementById items s =
     (case focusedItem items s of
        None \<Rightarrow> True
      | Some item \<Rightarrow> getElementById (key item @ utf16 ''-menu-item'') = None)"

text \<open>
  One commit of a level: the render mounts, keeps or unmounts the submenu's node, and the
  effect runs when one of its dependencies has changed. A commit comes with the level's
  state, the document, the node a mount would create, and whether the effect runs.
\<close>

type_synonym 'el commit = "menu_state \<times> (jsstring \<Rightarrow> 'el option) \<times> 'el \<times> bool"

definition commit ::
  "('el \<Rightarrow> 'el \<Rightarrow> 'c \<times> 'c) \<Rightarrow> 'w MenuItem list \<Rightarrow> 'el commit \<Rightarrow>
   ('el \<times> 'c style) option \<Rightarrow> ('el \<times> 'c style) option" where
  "commit getPosition items c ref =
     (case c of (s, getElementById, fresh, effect_runs) \<Rightarrow>
        let mounted = render_subMenuRef items s fresh ref
        in if effect_runs then positionEffect getElementById getPosition items s mounted
           else mounted)"

definition commits ::
  "('el \<Rightarrow> 'el \<Rightarrow> 'c \<times> 'c) \<Rightarrow> 'w MenuItem list \<Rightarrow> 'el commit list \<Rightarrow>
   ('el \<times> 'c style) option" where
  "commits getPosition items cs = foldl (\<lambda>ref c. commit getPosition items c ref) None cs"

text \<open>
  A commit resolves the position of a node when its effect runs with the submenu open and
  the document has the element of the item that is focused in that commit: the node's
  top and left are then what the resolver returned for the node and that element.
\<close>

definition resolves ::
  "('el \<Rightarrow> 'el \<Rightarrow> 'c \<times> 'c) \<Rightarrow> 'w MenuItem list \<Rightarrow> 'el commit \<Rightarrow> 'el \<times> 'c style \<Rightarrow> bool" where
  "resolves getPosition items c node =
     (case c of (s, getElementById, fresh, effect_runs) \<Rightarrow>
        effect_runs \<and> isSubmenuOpen s \<and>
        (case focusedItem items s of
           None \<Rightarrow> False
         | Some item \<Rightarrow>
             (case getElementById (key item @ utf16 ''-menu-item'') of
                None \<Rightarrow> False
              | Some anchor \<Rightarrow>
                  top_px (snd node) = Some (fst (getPosition (fst node) anchor)) \<and>
                  left_px (snd node) = Some (snd (getPosition (fst node) anchor)))))"

text \<open>
  The submenu is hidden when it is not mounted or its node's visibility is hidden. It is
  resolved by a list of commits when it is hidden or one of the commits resolves the
  position it has.
\<close>

definition hidden_node :: "('el \<times> 'c style) option \<Rightarrow> bool" where
  "hidden_node ref = (case ref of None \<Rightarrow> True | Some node \<Rightarrow> visibility (snd node) = Hidden)"

definition resolved_by ::
  "('el \<Rightarrow> 'el \<Rightarrow> 'c \<times> 'c) \<Rightarrow> 'w MenuItem list \<Rightarrow> 'el commit list \<Rightarrow>
   ('el \<times> 'c style) option \<Rightarrow> bool" where
  "resolved_by getPosition items cs ref =
     (case ref of
        None \<Rightarrow> True
      | Some node \<Rightarrow>
          visibility (snd node) = Hidden \<or> (\<exists>c\<in>set cs. resolves getPosition items c node))"

text \<open>
  A menu with two buttons that have a nested menu, and the states of its level after the
  pointer has rested on the first button, and then after it has moved on to the second
  and rested there.
\<close>

definition two_submenus :: "nat MenuItem list" where
  "two_submenus =
     [Button (utf16 ''export'') False False None
        (Some [Button (utf16 ''pdf'') False False None None]),
      Button (utf16 ''share'') False False None
        (Some [Button (utf16 ''link'') False False None None])]"

definition export_open :: menu_state where
  "export_open = run two_submenus [MouseEnter 0, Elapse 200] initial_state"

definition share_open :: menu_state where
  "share_open = run two_submenus [MouseLeave 0, MouseEnter 1, Elapse 200] export_open"

subsection \<open>The open levels of a menu tree\<close>

text \<open>
  What a click on each rendered button or popup of one level does in the embedding
  application.
\<close>

definition level_onClicks ::
  "'w callback \<Rightarrow> 'w MenuItem list \<Rightarrow> menu_state \<Rightarrow> ('w MenuItem \<times> 'w callback) list" where
  "level_onClicks onClose items s =
     concat (map (\<lambda>(index, item).
        case item of
          Separator k h \<Rightarrow> []
        | Button k h d oc m \<Rightarrow> [(item, \<lambda>w. snd (onClick_button onClose item index s w))]
        | Popup k h \<Rightarrow> [(item, onClick_popup onClose)]) (rendered items))"

text \<open>
  \<open>Menu\<close> renders its own items and, when a submenu is open, a nested \<open>Menu\<close>
  for the focused item's menu, handing it the same \<open>onClose\<close>. The states of the
  open levels are listed from the root down.
\<close>

fun Menu_onClicks ::
  "'w callback \<Rightarrow> 'w MenuItem list \<Rightarrow> menu_state list \<Rightarrow> ('w MenuItem \<times> 'w callback) list" where
  "Menu_onClicks onClose items [] = []"
| "Menu_onClicks onClose items (s # ss) =
     level_onClicks onClose items s @
     (case subMenu items s of
        None \<Rightarrow> []
      | Some sub \<Rightarrow> Menu_onClicks onClose sub ss)"

definition click_outcomes ::
  "'w callback \<Rightarrow> 'w MenuItem list \<Rightarrow> menu_state list \<Rightarrow> 'w \<Rightarrow> 'w outcome list" where
  "click_outcomes onClose items ss w = map (\<lambda>(item, click). click w) (Menu_onClicks onClose items ss)"

text \<open>
  An embedding application whose state is the number of \<open>onClose\<close> calls so far,
  with a handler that throws and one that returns.
\<close>

definition counting_onClose :: "nat callback" where
  "counting_onClose n = Returned (Suc n)"

definition throwing_onClick :: "nat callback" where
  "throwing_onClick n = Thrown ''boom'' n"

definition returning_onClick :: "nat callback" where
  "returning_onClick n = Returned n"

definition example_tree :: "nat MenuItem list" where
  "example_tree =
     [Button (utf16 ''file'') False False None
        (Some [Button (utf16 ''save'') False False (Some throwing_onClick) None,
               Button (utf16 ''open'') False False (Some returning_onClick) None])]"

definition example_levels :: "menu_state list" where
  "example_levels =
     [\<lparr>focusIndex = 0, isSubmenuOpen = True, hoverTimeout = None, now = 0\<rparr>, initial_state]"

subsection \<open>Keyboard navigation\<close>

text \<open>
  Modelled from the spec: the keyboard navigation of \<open>useFocus\<close> (use-focus.ts is
  not among the sources). "Downward/upward navigation: moves focus to next/previous
  non-separator, non-hidden item; wraps at ends", and "Hidden or disabled items are
  unreachable by both pointer and keyboard navigation": the targets of navigation are
  the items that are no separator, not hidden and not disabled. With no target at all
  the focus stays where it is.
\<close>

definition focusable :: "'w MenuItem \<Rightarrow> bool" where
  "focusable item =
     (case item of
        Separator k h \<Rightarrow> False
      | Button k h d oc m \<Rightarrow> \<not> h \<and> \<not> d
      | Popup k h \<Rightarrow> \<not> h)"

definition focusTargets :: "'w MenuItem list \<Rightarrow> int list" where
  "focusTargets items = filter (\<lambda>i. focusable (items ! nat i)) [0..int (length items) - 1]"

definition nextFocus :: "'w MenuItem list \<Rightarrow> int \<Rightarrow> int" where
  "nextFocus items i =
     (case find (\<lambda>j. i < j) (focusTargets items) of
        Some j \<Rightarrow> j
      | None \<Rightarrow> (case focusTargets items of [] \<Rightarrow> i | j # _ \<Rightarrow> j))"



definition navTargets :: "('w MenuItem \<Rightarrow> bool) \<Rightarrow> 'w MenuItem list \<Rightarrow> int list" where
  "navTargets target items = filter (\<lambda>i. target (items ! nat i)) [0..int (length items) - 1]"

definition navigateNext :: "('w MenuItem \<Rightarrow> bool) \<Rightarrow> 'w MenuItem list \<Rightarrow> int \<Rightarrow> int" where
  "navigateNext target items i =
     (case find (\<lambda>j. i < j) (navTargets target items) of
        Some j \<Rightarrow> j
      | None \<Rightarrow> (case navTargets target items of [] \<Rightarrow> i | j # _ \<Rightarrow> j))"

subsection \<open>What the user can do to a level\<close>





section \<open>JSON and the coercions of JavaScript\<close>

text \<open>
  The values that a note, the storage and \<open>JSON.parse\<close> deal in: \<open>undefined\<close>,
  \<open>null\<close>, booleans, numbers, strings, arrays, and plain objects as the list of
  their properties in enumeration order. Numbers are the integers, written without
  exponent. \<open>JSON.parse\<close> throws a \<open>SyntaxError\<close>; turning an object into a
  string can throw a \<open>TypeError\<close>.
\<close>

datatype jsval =
    JUndefined
  | JNull
  | JBool bool
  | JNum int
  | JStr jsstring
  | JArr "jsval list"
  | JObj "(jsstring \<times> jsval) list"

datatype js_error = SyntaxError | TypeError

text \<open>The code unit of an ASCII character.\<close>

definition ch :: "char \<Rightarrow> jschar" where
  "ch c = of_char c"

subsection \<open>Numbers\<close>

definition digit_char :: "nat \<Rightarrow> jschar" where
  "digit_char d = of_nat (48 + d)"

function decimal :: "nat \<Rightarrow> jsstring" where
  "decimal n = (if n < 10 then [digit_char n] else decimal (n div 10) @ [digit_char (n mod 10)])"
  by pat_completeness auto

termination
  by (relation "measure id") auto

declare decimal.simps [simp del]

definition Number_toString :: "int \<Rightarrow> jsstring" where
  "Number_toString i = (if i < 0 then ch CHR ''-'' # decimal (nat (- i)) else decimal (nat i))"

definition is_digit :: "jschar \<Rightarrow> bool" where
  "is_digit c \<longleftrightarrow> ch CHR ''0'' \<le> c \<and> c \<le> ch CHR ''9''"

definition digit_val :: "jschar \<Rightarrow> nat" where
  "digit_val c = unat c - 48"

definition digits_val :: "jsstring \<Rightarrow> nat" where
  "digits_val ds = foldl (\<lambda>n c. 10 * n + digit_val c) 0 ds"

subsection \<open>ToBoolean and ToString\<close>

text \<open>Truthiness, as the condition of \<open>x ? a : b\<close> reads it.\<close>

fun ToBoolean :: "jsval \<Rightarrow> bool" where
  "ToBoolean JUndefined = False"
| "ToBoolean JNull = False"
| "ToBoolean (JBool b) = b"
| "ToBoolean (JNum n) = (n \<noteq> 0)"
| "ToBoolean (JStr s) = (s \<noteq> [])"
| "ToBoolean (JArr xs) = True"
| "ToBoolean (JObj fs) = True"

text \<open>The strings of a list of results, or the first exception among them.\<close>

fun sequence :: "(js_error + jsstring) list \<Rightarrow> js_error + jsstring list" where
  "sequence [] = Inr []"
| "sequence (Inl e # rs) = Inl e"
| "sequence (Inr s # rs) = (case sequence rs of Inl e \<Rightarrow> Inl e | Inr ss \<Rightarrow> Inr (s # ss))"

text \<open>
  \<open>ToString\<close>: an array is joined with commas, \<open>null\<close> and \<open>undefined\<close>
  elements giving the empty string. A plain object goes through
  \<open>Object.prototype.toString\<close> and gives \<open>[object Object]\<close>; when it has a
  property \<open>toString\<close> of its own, which in data is no function, neither that nor
  \<open>valueOf\<close> yields a primitive and the conversion throws a \<open>TypeError\<close>.
\<close>

fun ToString :: "jsval \<Rightarrow> js_error + jsstring" where
  "ToString JUndefined = Inr (utf16 ''undefined'')"
| "ToString JNull = Inr (utf16 ''null'')"
| "ToString (JBool b) = Inr (if b then utf16 ''true'' else utf16 ''false'')"
| "ToString (JNum n) = Inr (Number_toString n)"
| "ToString (JStr s) = Inr s"
| "ToString (JArr xs) =
     (case sequence (map (\<lambda>x. if x = JUndefined \<or> x = JNull then Inr [] else ToString x) xs) of
        Inl e \<Rightarrow> Inl e
      | Inr ss \<Rightarrow> Inr (join ss (utf16 '','')))"
| "ToString (JObj fs) =
     (if utf16 ''toString'' \<in> fst ` set fs then Inl TypeError
      else Inr (utf16 ''[object Object]''))"

subsection \<open>JSON.stringify\<close>

text \<open>
  \<open>QuoteJSONString\<close>: the quote, the backslash and the control characters are
  escaped, a surrogate that is not part of a pair is written as \<open>\uXXXX\<close> with
  lower-case hexadecimal digits.
\<close>

definition hex_char :: "nat \<Rightarrow> jschar" where
  "hex_char d = (if d < 10 then of_nat (48 + d) else of_nat (87 + d))"

definition hex4 :: "jschar \<Rightarrow> jsstring" where
  "hex4 c = map hex_char
     [unat c div 4096, unat c div 256 mod 16, unat c div 16 mod 16, unat c mod 16]"

definition is_high_surrogate :: "jschar \<Rightarrow> bool" where
  "is_high_surrogate c \<longleftrightarrow> 0xD800 \<le> c \<and> c \<le> 0xDBFF"

definition is_low_surrogate :: "jschar \<Rightarrow> bool" where
  "is_low_surrogate c \<longleftrightarrow> 0xDC00 \<le> c \<and> c \<le> 0xDFFF"

definition quote_char :: "jschar \<Rightarrow> jsstring" where
  "quote_char c =
     (if c = 0x08 then [0x5C, ch CHR ''b'']
      else if c = 0x09 then [0x5C, ch CHR ''t'']
      else if c = 0x0A then [0x5C, ch CHR ''n'']
      else if c = 0x0C then [0x5C, ch CHR ''f'']
      else if c = 0x0D then [0x5C, ch CHR ''r'']
      else if c = 0x22 then [0x5C, 0x22]
      else if c = 0x5C then [0x5C, 0x5C]
      else if c < 0x20 \<or> is_high_surrogate c \<or> is_low_surrogate c
        then 0x5C # ch CHR ''u'' # hex4 c
      else [c])"

fun quote_chars :: "jsstring \<Rightarrow> jsstring" where
  "quote_chars [] = []"
| "quote_chars [c] = quote_char c"
| "quote_chars (c # d # cs) =
     (if is_high_surrogate c \<and> is_low_surrogate d then c # d # quote_chars cs
      else quote_char c @ quote_chars (d # cs))"

definition QuoteJSONString :: "jsstring \<Rightarrow> jsstring" where
  "QuoteJSONString s = 0x22 # quote_chars s @ [0x22]"

text \<open>
  \<open>SerializeJSONProperty\<close>, without indentation: \<open>undefined\<close> has no text;
  inside an array it is written \<open>null\<close>, and a property with that value is left
  out.
\<close>

fun serialize :: "jsval \<Rightarrow> jsstring option" where
  "serialize JUndefined = None"
| "serialize JNull = Some (utf16 ''null'')"
| "serialize (JBool b) = Some (if b then utf16 ''true'' else utf16 ''false'')"
| "serialize (JNum n) = Some (Number_toString n)"
| "serialize (JStr s) = Some (QuoteJSONString s)"
| "serialize (JArr xs) =
     Some (ch CHR ''['' #
       join (map (\<lambda>x. case serialize x of None \<Rightarrow> utf16 ''null'' | Some t \<Rightarrow> t) xs) (utf16 '','')
       @ [ch CHR '']''])"
| "serialize (JObj fs) =
     Some (ch CHR ''{'' #
       join (concat (map (\<lambda>(k, v). case serialize v of
                None \<Rightarrow> []
              | Some t \<Rightarrow> [QuoteJSONString k @ ch CHR '':'' # t]) fs)) (utf16 '','')
       @ [ch CHR ''}''])"

definition JSON_stringify :: "jsval \<Rightarrow> jsval" where
  "JSON_stringify v = (case serialize v of None \<Rightarrow> JUndefined | Some t \<Rightarrow> JStr t)"

subsection \<open>JSON.parse\<close>

text \<open>White space between the tokens of a JSON text: space, tab, line feed, carriage return.\<close>

definition is_json_ws :: "jschar \<Rightarrow> bool" where
  "is_json_ws c \<longleftrightarrow> c = 0x20 \<or> c = 0x09 \<or> c = 0x0A \<or> c = 0x0D"

definition skip_ws :: "jsstring \<Rightarrow> jsstring" where
  "skip_ws text = dropWhile is_json_ws text"

definition hex_val :: "jschar \<Rightarrow> nat option" where
  "hex_val c =
     (if ch CHR ''0'' \<le> c \<and> c \<le> ch CHR ''9'' then Some (unat c - 48)
      else if ch CHR ''a'' \<le> c \<and> c \<le> ch CHR ''f'' then Some (unat c - 87)
      else if ch CHR ''A'' \<le> c \<and> c \<le> ch CHR ''F'' then Some (unat c - 55)
      else None)"

definition hex4_val :: "jschar \<Rightarrow> jschar \<Rightarrow> jschar \<Rightarrow> jschar \<Rightarrow> jschar option" where
  "hex4_val a b c d =
     (case (hex_val a, hex_val b, hex_val c, hex_val d) of
        (Some x, Some y, Some z, Some w) \<Rightarrow> Some (of_nat (((x * 16 + y) * 16 + z) * 16 + w))
      | _ \<Rightarrow> None)"

definition unescape :: "jschar \<Rightarrow> jschar option" where
  "unescape e =
     (if e = 0x22 then Some 0x22
      else if e = 0x5C then Some 0x5C
      else if e = ch CHR ''/'' then Some (ch CHR ''/'')
      else if e = ch CHR ''b'' then Some 0x08
      else if e = ch CHR ''f'' then Some 0x0C
      else if e = ch CHR ''n'' then Some 0x0A
      else if e = ch CHR ''r'' then Some 0x0D
      else if e = ch CHR ''t'' then Some 0x09
      else None)"

text \<open>The characters of a string literal after its opening quote, up to the closing one.\<close>

fun parse_chars :: "jsstring \<Rightarrow> (jsstring \<times> jsstring) option" where
  "parse_chars [] = None"
| "parse_chars (c # cs) =
     (if c = 0x22 then Some ([], cs)
      else if c = 0x5C then
        (case cs of
           [] \<Rightarrow> None
         | e # cs' \<Rightarrow>
             if e = ch CHR ''u'' then
               (case cs' of
                  h1 # h2 # h3 # h4 # cs'' \<Rightarrow>
                    (case hex4_val h1 h2 h3 h4 of
                       None \<Rightarrow> None
                     | Some u \<Rightarrow> map_option (apfst ((#) u)) (parse_chars cs''))
                | _ \<Rightarrow> None)
             else
               (case unescape e of
                  None \<Rightarrow> None
                | Some x \<Rightarrow> map_option (apfst ((#) x)) (parse_chars cs')))
      else if c < 0x20 then None
      else map_option (apfst ((#) c)) (parse_chars cs))"

definition starts_with :: "jsstring \<Rightarrow> jsstring \<Rightarrow> bool" where
  "starts_with lit text \<longleftrightarrow> take (length lit) text = lit"

text \<open>
  A number literal. Numbers are the integers here: a literal with a fraction or an
  exponent denotes a number outside this model and is not accepted.
\<close>

definition parse_number :: "jsstring \<Rightarrow> (jsval \<times> jsstring) option" where
  "parse_number text =
     (let negative = (text \<noteq> [] \<and> hd text = ch CHR ''-'');
          body = (if negative then tl text else text);
          ds = takeWhile is_digit body;
          rest = dropWhile is_digit body
      in if ds = [] \<or> (hd ds = ch CHR ''0'' \<and> length ds > 1) then None
         else if rest \<noteq> [] \<and> (hd rest = ch CHR ''.'' \<or> hd rest = ch CHR ''e'' \<or> hd rest = ch CHR ''E'')
           then None
         else Some (JNum (if negative then - int (digits_val ds) else int (digits_val ds)), rest))"

text \<open>
  \<open>CreateDataProperty\<close> on the object under construction: a key that is there
  already keeps its place and takes the new value. (The order in which JavaScript
  enumerates integer-like keys is not modelled.)
\<close>

fun define_property :: "jsstring \<Rightarrow> jsval \<Rightarrow> (jsstring \<times> jsval) list \<Rightarrow> (jsstring \<times> jsval) list" where
  "define_property k v [] = [(k, v)]"
| "define_property k v ((k', v') # fs) =
     (if k = k' then (k, v) # fs else (k', v') # define_property k v fs)"

text \<open>
  The recursive descent over values, array elements and object members. The first
  argument bounds the depth of the recursion; \<open>JSON_parse\<close> starts it with more than
  the length of the text.
\<close>

fun parse_value :: "nat \<Rightarrow> jsstring \<Rightarrow> (jsval \<times> jsstring) option"
  and parse_elements :: "nat \<Rightarrow> jsval list \<Rightarrow> jsstring \<Rightarrow> (jsval \<times> jsstring) option"
  and parse_members :: "nat \<Rightarrow> (jsstring \<times> jsval) list \<Rightarrow> jsstring \<Rightarrow> (jsval \<times> jsstring) option"
  where
  "parse_value 0 text = None"
| "parse_value (Suc n) text =
     (case skip_ws text of
        [] \<Rightarrow> None
      | c # cs \<Rightarrow>
          if c = ch CHR ''['' then
            (case skip_ws cs of
               [] \<Rightarrow> None
             | c' # cs' \<Rightarrow> if c' = ch CHR '']'' then Some (JArr [], cs') else parse_elements n [] cs)
          else if c = ch CHR ''{'' then
            (case skip_ws cs of
               [] \<Rightarrow> None
             | c' # cs' \<Rightarrow> if c' = ch CHR ''}'' then Some (JObj [], cs') else parse_members n [] cs)
          else if c = 0x22 then map_option (apfst JStr) (parse_chars cs)
          else if starts_with (utf16 ''null'') (c # cs) then Some (JNull, drop 4 (c # cs))
          else if starts_with (utf16 ''true'') (c # cs) then Some (JBool True, drop 4 (c # cs))
          else if starts_with (utf16 ''false'') (c # cs) then Some (JBool False, drop 5 (c # cs))
          else parse_number (c # cs))"
| "parse_elements 0 acc text = None"
| "parse_elements (Suc n) acc text =
     (case parse_value n text of
        None \<Rightarrow> None
      | Some (v, rest) \<Rightarrow>
          (case skip_ws rest of
             [] \<Rightarrow> None
           | c # cs \<Rightarrow>
               if c = ch CHR '','' then parse_elements n (acc @ [v]) cs
               else if c = ch CHR '']'' then Some (JArr (acc @ [v]), cs)
               else None))"
| "parse_members 0 acc text = None"
| "parse_members (Suc n) acc text =
     (case skip_ws text of
        [] \<Rightarrow> None
      | q # cs \<Rightarrow>
          if q \<noteq> 0x22 then None
          else
            (case parse_chars cs of
               None \<Rightarrow> None
             | Some (k, rest) \<Rightarrow>
                 (case skip_ws rest of
                    [] \<Rightarrow> None
                  | colon # cs' \<Rightarrow>
                      if colon \<noteq> ch CHR '':'' then None
                      else
                        (case parse_value n cs' of
                           None \<Rightarrow> None
                         | Some (v, rest') \<Rightarrow>
                             (case skip_ws rest' of
                                [] \<Rightarrow> None
                              | c # cs'' \<Rightarrow>
                                  if c = ch CHR '','' then parse_members n (define_property k v acc) cs''
                                  else if c = ch CHR ''}'' then Some (JObj (define_property k v acc), cs'')
                                  else None)))))"

definition JSON_parse_text :: "jsstring \<Rightarrow> js_error + jsval" where
  "JSON_parse_text text =
     (case parse_value (Suc (length text)) text of
        None \<Rightarrow> Inl SyntaxError
      | Some (v, rest) \<Rightarrow> if skip_ws rest = [] then Inr v else Inl SyntaxError)"

text \<open>\<open>JSON.parse(x)\<close> first turns its argument into a string.\<close>

definition JSON_parse :: "jsval \<Rightarrow> js_error + jsval" where
  "JSON_parse x = (case ToString x of Inl e \<Rightarrow> Inl e | Inr text \<Rightarrow> JSON_parse_text text)"

text \<open>A note for the examples.\<close>

definition example_note :: jsval where
  "example_note =
     JObj [(utf16 ''id'', JNum 42), (utf16 ''title'', JStr [0x61, 0x22, 0x0A, 0xD800]),
           (utf16 ''tags'', JArr [JNull, JBool True, JObj []])]"

subsection \<open>Notions for the round trip\<close>

text \<open>What may follow a value inside a serialized text: nothing, a comma or a closing bracket.\<close>

definition delimited :: "jsstring \<Rightarrow> bool" where
  "delimited rest \<longleftrightarrow>
     rest = [] \<or> hd rest = ch CHR '','' \<or> hd rest = ch CHR '']'' \<or> hd rest = ch CHR ''}''"

text \<open>
  JSON data: the values without \<open>undefined\<close> in them, the keys of each object
  distinct. \<open>ser\<close> is the text \<open>JSON.stringify\<close> writes for a value inside an
  array.
\<close>

fun json :: "jsval \<Rightarrow> bool" where
  "json JUndefined = False"
| "json (JArr xs) = (\<forall>x\<in>set xs. json x)"
| "json (JObj fs) = (distinct (map fst fs) \<and> (\<forall>kv\<in>set fs. json (snd kv)))"
| "json v = True"

definition ser :: "jsval \<Rightarrow> jsstring" where
  "ser v = (case serialize v of None \<Rightarrow> utf16 ''null'' | Some t \<Rightarrow> t)"

text \<open>The first character of a serialized value.\<close>

definition value_start :: "jschar \<Rightarrow> bool" where
  "value_start c \<longleftrightarrow>
     c = ch CHR ''n'' \<or> c = ch CHR ''t'' \<or> c = ch CHR ''f'' \<or> c = ch CHR ''-'' \<or> is_digit c \<or>
     c = 0x22 \<or> c = ch CHR ''['' \<or> c = ch CHR ''{''"

text \<open>
  A value is well formed when the keys of each of its objects are distinct (a JavaScript
  object has one property per key).
\<close>

fun well_formed :: "jsval \<Rightarrow> bool" where
  "well_formed (JArr xs) = (\<forall>x\<in>set xs. well_formed x)"
| "well_formed (JObj fs) = (distinct (map fst fs) \<and> (\<forall>kv\<in>set fs. well_formed (snd kv)))"
| "well_formed v = True"

text \<open>
  What \<open>JSON.stringify\<close> keeps of a value: an \<open>undefined\<close> array element
  becomes \<open>null\<close>, a property whose value is \<open>undefined\<close> is left out.
\<close>

fun kept :: "jsval \<Rightarrow> jsval"
  and kept_elements :: "jsval list \<Rightarrow> jsval list"
  and kept_members :: "(jsstring \<times> jsval) list \<Rightarrow> (jsstring \<times> jsval) list" where
  "kept (JArr xs) = JArr (kept_elements xs)"
| "kept (JObj fs) = JObj (kept_members fs)"
| "kept v = v"
| "kept_elements [] = []"
| "kept_elements (x # xs) = (if x = JUndefined then JNull else kept x) # kept_elements xs"
| "kept_members [] = []"
| "kept_members ((k, v) # fs) =
     (if v = JUndefined then kept_members fs else (k, kept v) # kept_members fs)"

section \<open>The share-extension store (useShareStore)\<close>

text \<open>
  \<open>MMKV\<close> (app/common/database/mmkv is not among the sources) is the platform's
  key-value storage: its state is what \<open>getString\<close> returns for each key, and
  \<open>setItem\<close> replaces what is stored under one key.
\<close>

type_synonym mmkv = "jsstring \<Rightarrow> jsval"

definition MMKV_getString :: "mmkv \<Rightarrow> jsstring \<Rightarrow> jsval" where
  "MMKV_getString storage k = storage k"

definition MMKV_setItem :: "jsstring \<Rightarrow> jsval \<Rightarrow> mmkv \<Rightarrow> mmkv" where
  "MMKV_setItem k v storage = storage(k := v)"

definition StorageKeys_appendNote :: jsstring where
  "StorageKeys_appendNote = utf16 ''shareMenuAppendNote''"

definition StorageKeys_selectedNotebooks :: jsstring where
  "StorageKeys_selectedNotebooks = utf16 ''shareMenuSelectedNotebooks''"

definition StorageKeys_selectedTag :: jsstring where
  "StorageKeys_selectedTag = utf16 ''shareMenuSelectedTag''"

text \<open>
  The state of the store, without the theme. \<open>restore\<close> writes the key
  \<open>selectedTag\<close>, which the store does not have before.
\<close>

record share_state =
  appendNote :: jsval
  selectedNotebooks :: jsval
  selectedTags :: jsval
  selectedTag :: jsval

definition initial_share_state :: share_state where
  "initial_share_state =
     \<lparr>appendNote = JNull, selectedNotebooks = JArr [], selectedTags = JArr [],
      selectedTag = JUndefined\<rparr>"

definition setAppendNote :: "jsval \<Rightarrow> mmkv \<times> share_state \<Rightarrow> mmkv \<times> share_state" where
  "setAppendNote note = (\<lambda>(storage, st).
     (MMKV_setItem StorageKeys_appendNote (JSON_stringify note) storage,
      st\<lparr>appendNote := note\<rparr>))"

text \<open>
  \<open>restore\<close>: the stored \<open>appendNote\<close> is parsed, and the result, when truthy,
  is parsed again inside the object handed to \<open>set\<close>; the properties of that object
  are evaluated in order. An exception of \<open>JSON.parse\<close> leaves \<open>restore\<close> before
  \<open>set\<close> is called.
\<close>

definition restore :: "mmkv \<times> share_state \<Rightarrow> js_error + mmkv \<times> share_state" where
  "restore = (\<lambda>(storage, st).
     let appendNote0 = MMKV_getString storage StorageKeys_appendNote;
         selectedNotebooks0 = MMKV_getString storage StorageKeys_selectedNotebooks;
         selectedTags0 = MMKV_getString storage StorageKeys_selectedTag
     in case JSON_parse appendNote0 of
          Inl e \<Rightarrow> Inl e
        | Inr appendNote1 \<Rightarrow>
            (case (if ToBoolean appendNote1 then JSON_parse appendNote1 else Inr JNull) of
               Inl e \<Rightarrow> Inl e
             | Inr a \<Rightarrow>
                 (case (if ToBoolean selectedNotebooks0 then JSON_parse selectedNotebooks0
                        else Inr (JArr [])) of
                    Inl e \<Rightarrow> Inl e
                  | Inr nb \<Rightarrow>
                      (case (if ToBoolean selectedTags0 then JSON_parse selectedTags0
                             else Inr (JArr [])) of
                         Inl e \<Rightarrow> Inl e
                       | Inr tg \<Rightarrow>
                           Inr (storage,
                                st\<lparr>appendNote := a, selectedNotebooks := nb,
                                    selectedTag := tg\<rparr>)))))"

text \<open>A storage in which nothing was stored yet.\<close>

definition empty_storage :: mmkv where
  "empty_storage k = JUndefined"

section \<open>Properties: convertNewlinesToBr\<close>

lemma split_LF_not_Nil: "split_LF s \<noteq> []"
  by (induction s) (auto split: list.splits)

lemma join_split_LF: "join (split_LF s) [LF] = s"
proof (induction s)
  case Nil
  show ?case by simp
next
  case (Cons c cs)
  obtain l ls where sp: "split_LF cs = l # ls"
    using split_LF_not_Nil [of cs] by (cases "split_LF cs") auto
  show ?case
  proof (cases "c = LF")
    case True
    with Cons sp show ?thesis by simp
  next
    case False
    with Cons sp show ?thesis by (cases ls) auto
  qed
qed

lemma LF_notin_split_LF: "l \<in> set (split_LF s) \<Longrightarrow> LF \<notin> set l"
proof (induction s arbitrary: l)
  case Nil
  then show ?case by simp
next
  case (Cons c cs)
  obtain l' ls where sp: "split_LF cs = l' # ls"
    using split_LF_not_Nil [of cs] by (cases "split_LF cs") auto
  with Cons show ?case by (auto split: if_splits)
qed

lemma join_empty: "join ls [] = concat ls"
  by (induction ls "[] :: jsstring" rule: join.induct) auto

lemma convertNewlinesToBr_loop_map:
  "i \<le> length lines \<Longrightarrow>
   convertNewlinesToBr_loop i lines = take i lines @ map br_line (drop i lines)"
proof (induction i lines rule: convertNewlinesToBr_loop.induct)
  case (1 i lines)
  note unfold = convertNewlinesToBr_loop.simps [of i lines]
  show ?case
  proof (cases "i < length lines")
    case False
    with "1.prems" unfold show ?thesis by simp
  next
    case True
    note lt = this
    have dr: "drop i lines = lines ! i # drop (Suc i) lines"
      using lt by (simp add: Cons_nth_drop_Suc)
    show ?thesis
    proof (cases "endsWith (trim (lines ! i)) (utf16 ''>'')")
      case True
      with lt "1.IH"(1) unfold have
        "convertNewlinesToBr_loop i lines =
           take (Suc i) lines @ map br_line (drop (Suc i) lines)"
        by simp
      with True lt dr show ?thesis
        by (simp add: take_Suc_conv_app_nth br_line_def)
    next
      case False
      let ?ls = "lines[i := lines ! i @ utf16 ''<br>'']"
      from False lt "1.IH"(2) unfold have
        "convertNewlinesToBr_loop i lines =
           take (Suc i) ?ls @ map br_line (drop (Suc i) ?ls)"
        by simp
      with False lt dr show ?thesis
        by (simp add: take_Suc_conv_app_nth br_line_def)
    qed
  qed
qed

lemma br_no_LF: "LF \<notin> set (utf16 ''<br>'')"
  by (simp add: utf16_def LF_def)

lemma LF_notin_br_line: "LF \<notin> set l \<Longrightarrow> LF \<notin> set (br_line l)"
  using br_no_LF by (simp add: br_line_def)

lemma convertNewlinesToBr_eq:
  "convertNewlinesToBr html = concat (map br_line (split_LF html))"
  by (simp add: convertNewlinesToBr_def convertNewlinesToBr_loop_map join_empty)

lemma LF_notin_convertNewlinesToBr: "LF \<notin> set (convertNewlinesToBr html)"
proof
  assume "LF \<in> set (convertNewlinesToBr html)"
  then obtain l where l: "l \<in> set (split_LF html)" and "LF \<in> set (br_line l)"
    unfolding convertNewlinesToBr_eq by auto
  moreover from l have "LF \<notin> set l" by (rule LF_notin_split_LF)
  ultimately show False using LF_notin_br_line by blast
qed

lemma convertNewlinesToBr_example:
  "convertNewlinesToBr (utf16 ''<p>a</p> '' @ [LF] @ utf16 ''b'' @ [LF]) =
     utf16 ''<p>a</p> b<br><br>''"
  by (simp add: convertNewlinesToBr_eq br_line_def endsWith_def trim_def isWhiteSpace_def
      utf16_def LF_def)

text \<open>
  C9. For every input string, \<open>convertNewlinesToBr\<close> splits the input at its line
  feeds (the pieces hold no line feed, and joined with a line feed they give the input
  back), appends \<open><br>\<close> to exactly the pieces whose trimmed text does not end
  with \<open>>\<close>, and joins the pieces with the empty string; its output contains no
  line feed.
\<close>

theorem convertNewlinesToBr_spec:
  "join (split_LF html) [LF] = html \<and>
   LF \<notin> set (concat (split_LF html)) \<and>
   convertNewlinesToBr html =
     concat (map (\<lambda>l. if endsWith (trim l) (utf16 ''>'') then l else l @ utf16 ''<br>'')
                 (split_LF html)) \<and>
   LF \<notin> set (convertNewlinesToBr html)"
proof -
  have "br_line = (\<lambda>l. if endsWith (trim l) (utf16 ''>'') then l else l @ utf16 ''<br>'')"
    by (rule ext) (simp only: br_line_def)
  then have "convertNewlinesToBr html =
     concat (map (\<lambda>l. if endsWith (trim l) (utf16 ''>'') then l else l @ utf16 ''<br>'')
                 (split_LF html))"
    using convertNewlinesToBr_eq [of html] by (simp only:)
  moreover have "LF \<notin> set (concat (split_LF html))"
    using LF_notin_split_LF [of _ html] by auto
  ultimately show ?thesis
    using join_split_LF [of html] LF_notin_convertNewlinesToBr [of html] by blast
qed

section \<open>Properties: the context menu\<close>

subsection \<open>Events of one level\<close>

lemma fst_onClick_button: "fst (onClick_button onClose item index s w) = onClick_state item index s"
  by (simp add: onClick_button_def onClick_state_def)

subsection \<open>Hovering\<close>

declare step.simps [simp del]

lemma map_of_filter_enumerate:
  "map_of (filter (\<lambda>(i, x). P x) (enumerate n xs)) k =
     (if n \<le> k \<and> k < n + length xs \<and> P (xs ! (k - n)) then Some (xs ! (k - n)) else None)"
proof (induction xs arbitrary: n)
  case Nil
  show ?case by simp
next
  case (Cons x xs)
  show ?case
  proof (cases "k = n")
    case True
    then show ?thesis using Cons.IH [of "Suc n"] by simp
  next
    case False
    then have "(k - n) = Suc (k - Suc n) \<or> k < n" by arith
    with False show ?thesis using Cons.IH [of "Suc n"] by auto
  qed
qed

lemma map_of_rendered:
  "map_of (rendered items) i =
     (if i < length items \<and> \<not> isHidden (items ! i) then Some (items ! i) else None)"
  using map_of_filter_enumerate [of "\<lambda>x. \<not> isHidden x" 0 items i]
  by (simp add: rendered_def)


lemma button_at_example_menu:
  "button_at example_menu 0 = Some (Button (utf16 ''new'') False False None None)"
  "button_at example_menu 1 = None"
  "button_at example_menu 2 = Some (Button (utf16 ''export'') False False None
        (Some [Button (utf16 ''pdf'') False False None None]))"
  "button_at example_menu 3 = Some (Button (utf16 ''delete'') False True None None)"
  "button_at example_menu 4 = None"
  by (simp_all add: button_at_def map_of_rendered example_menu_def)

lemma hoverCallback_now [simp]: "now (hoverCallback t s) = now s"
  by (simp add: hoverCallback_def setFocusIndex_def setIsSubmenuOpen_def Let_def)

lemma hoverCallback_hoverTimeout [simp]: "hoverTimeout (hoverCallback t s) = hoverTimeout s"
  by (simp add: hoverCallback_def setFocusIndex_def setIsSubmenuOpen_def Let_def)

lemma hoverCallback_now_update:
  "hoverCallback t (s\<lparr>now := n\<rparr>) = (hoverCallback t s)\<lparr>now := n\<rparr>"
  by (simp add: hoverCallback_def setFocusIndex_def setIsSubmenuOpen_def Let_def)

lemma advance_no_timer: "hoverTimeout s = None \<Longrightarrow> advance d s = s\<lparr>now := now s + d\<rparr>"
  by (simp add: advance_def)

lemma advance_not_due:
  "hoverTimeout s = Some t \<Longrightarrow> now s + d < deadline t \<Longrightarrow> advance d s = s\<lparr>now := now s + d\<rparr>"
  by (simp add: advance_def)


lemma advance_add: "advance d2 (advance d1 s) = advance (d1 + d2) s"
proof (cases "hoverTimeout s")
  case None
  then show ?thesis by (simp add: advance_def add.assoc)
next
  case (Some t)
  show ?thesis
  proof (cases "deadline t \<le> now s + d1")
    case True
    with Some show ?thesis
      by (simp add: advance_def hoverCallback_def setFocusIndex_def setIsSubmenuOpen_def
          Let_def add.assoc)
  next
    case False
    with Some show ?thesis
      by (simp add: advance_def add.assoc)
  qed
qed

lemma run_Nil: "run items [] s = s"
  by (simp add: run_def)

lemma run_Cons: "run items (ev # evs) s = run items evs (step items ev s)"
  by (simp add: run_def)

lemma run_append: "run items (evs @ evs') s = run items evs' (run items evs s)"
  by (simp add: run_def)

lemma run_Elapse:
  "run items (map Elapse ds) s = (if ds = [] then s else advance (sum_list ds) s)"
proof (induction ds arbitrary: s)
  case Nil
  show ?case by (simp add: run_Nil)
next
  case (Cons d ds)
  show ?case by (simp add: Cons.IH advance_add step.simps run_Cons)
qed

lemma run_Elapse_no_timer:
  "hoverTimeout s = None \<Longrightarrow> run items (map Elapse ds) s = s\<lparr>now := now s + sum_list ds\<rparr>"
  by (simp add: run_Elapse advance_no_timer)

lemma run_Elapse_not_due:
  "hoverTimeout s = Some t \<Longrightarrow> now s + sum_list ds < deadline t \<Longrightarrow>
   run items (map Elapse ds) s = s\<lparr>now := now s + sum_list ds\<rparr>"
  by (simp add: run_Elapse advance_not_due)

lemma subMenu_cong:
  "focusIndex s' = focusIndex s \<Longrightarrow> isSubmenuOpen s' = isSubmenuOpen s \<Longrightarrow>
   subMenu items s' = subMenu items s"
  by (auto simp: subMenu_def focusedItem_def split: option.splits MenuItem.splits)

lemma subMenu_closed: "\<not> isSubmenuOpen s \<Longrightarrow> subMenu items s = None"
  by (simp add: subMenu_def split: option.splits MenuItem.splits)

lemma subMenu_no_focus: "focusIndex s = - 1 \<Longrightarrow> subMenu items s = None"
  by (simp add: subMenu_def focusedItem_def at_index_def)

lemma step_MouseEnter_disabled:
  assumes "button_at items i = Some item" and "isDisabled item"
  shows "step items (MouseEnter i) s = s\<lparr>focusIndex := - 1\<rparr>"
  using assms by (simp add: step.simps onMouseEnter_def setFocusIndex_def)

lemma step_MouseEnter_enabled:
  assumes "button_at items i = Some item" and "\<not> isDisabled item"
  shows "step items (MouseEnter i) s =
     (if \<not> isSubmenuOpen s then setFocusIndex (int i) s else s)
        \<lparr>hoverTimeout := Some \<lparr>deadline = now s + 200, t_index = i,
             t_hasMenu = (menu item \<noteq> None), t_isSubmenuOpen = isSubmenuOpen s\<rparr>\<rparr>"
  using assms by (simp add: step.simps onMouseEnter_def clearTimeout_def Let_def)

lemma run_MouseEnter_disabled:
  assumes "button_at items i = Some item" and "isDisabled item" and "hoverTimeout s = None"
  shows "run items (MouseEnter i # map Elapse ds) s =
           s\<lparr>focusIndex := - 1, now := now s + sum_list ds\<rparr>"
  using assms by (simp add: run_Cons step_MouseEnter_disabled run_Elapse_no_timer)

text \<open>
  C8. When the pointer enters a rendered button that is disabled, the focus index is
  set to none (\<open>-1\<close>) and nothing else changes: no hover timer is started, no item
  is focused and no submenu is rendered; when no timer was pending, the level stays
  like that however much time passes.
\<close>

theorem disabled_hover:
  assumes "button_at items i = Some item" and "isDisabled item"
  shows "step items (MouseEnter i) s = s\<lparr>focusIndex := - 1\<rparr> \<and>
         focusedItem items (step items (MouseEnter i) s) = None \<and>
         subMenu items (step items (MouseEnter i) s) = None \<and>
         (hoverTimeout s = None \<longrightarrow>
            run items (MouseEnter i # map Elapse ds) s =
              s\<lparr>focusIndex := - 1, now := now s + sum_list ds\<rparr>)"
proof -
  have st: "step items (MouseEnter i) s = s\<lparr>focusIndex := - 1\<rparr>"
    using assms by (rule step_MouseEnter_disabled)
  have "focusedItem items (s\<lparr>focusIndex := - 1\<rparr>) = None"
    by (simp add: focusedItem_def at_index_def)
  moreover have "subMenu items (s\<lparr>focusIndex := - 1\<rparr>) = None"
    by (simp add: subMenu_no_focus)
  ultimately show ?thesis
    using st run_MouseEnter_disabled [OF assms, of s ds] by simp
qed

theorem disabled_hover_witness:
  "button_at example_menu 3 = Some (Button (utf16 ''delete'') False True None None) \<and>
   isDisabled (Button (utf16 ''delete'') False True None None :: nat MenuItem) \<and>
   step example_menu (MouseEnter 3) example_state = example_state\<lparr>focusIndex := - 1\<rparr> \<and>
   hoverTimeout example_state = None \<and>
   run example_menu (MouseEnter 3 # map Elapse [150, 100]) example_state =
     \<lparr>focusIndex = - 1, isSubmenuOpen = False, hoverTimeout = None, now = 1250\<rparr>"
  using disabled_hover [OF button_at_example_menu(4), of example_state "[150, 100]"]
  by (simp add: button_at_example_menu example_state_def)

text \<open>
  C3. For every rendered button, when the pointer enters it and leaves again before
  200 ms have passed, no timer is pending afterwards and nothing happens however much
  time passes later. A disabled button starts no timer at all. For an enabled button
  (and for a disabled one entered while no timer was pending) the submenu-open flag is
  what it was before the hover, and the rendered submenu is none or the one that was
  open before.
\<close>

theorem hover_leave_before_delay:
  assumes "button_at items i = Some item" and "sum_list ds < 200"
  shows "hoverTimeout (run items (hover_leave i ds) s) = None \<and>
         run items (map Elapse later) (run items (hover_leave i ds) s) =
           (run items (hover_leave i ds) s)
             \<lparr>now := now (run items (hover_leave i ds) s) + sum_list later\<rparr> \<and>
         (isDisabled item \<longrightarrow>
            hoverTimeout (step items (MouseEnter i) s) = hoverTimeout s) \<and>
         (\<not> isDisabled item \<or> hoverTimeout s = None \<longrightarrow>
            isSubmenuOpen (run items (hover_leave i ds) s) = isSubmenuOpen s \<and>
            (subMenu items (run items (hover_leave i ds) s) = None \<or>
             subMenu items (run items (hover_leave i ds) s) = subMenu items s))"
proof -
  let ?s' = "run items (hover_leave i ds) s"
  have leave: "?s' = clearTimeout (run items (map Elapse ds) (step items (MouseEnter i) s))"
    using assms(1)
    by (simp add: hover_leave_def onMouseLeave_def step.simps run_Cons run_append run_Nil)
  have 1: "hoverTimeout ?s' = None"
    by (simp add: leave clearTimeout_def)
  have 2: "run items (map Elapse later) ?s' = ?s'\<lparr>now := now ?s' + sum_list later\<rparr>"
    using 1 by (rule run_Elapse_no_timer)
  have 3: "isDisabled item \<longrightarrow> hoverTimeout (step items (MouseEnter i) s) = hoverTimeout s"
    using assms(1) by (simp add: step_MouseEnter_disabled)
  have 4: "isSubmenuOpen ?s' = isSubmenuOpen s \<and>
      (subMenu items ?s' = None \<or> subMenu items ?s' = subMenu items s)"
    if en: "\<not> isDisabled item"
  proof -
    let ?e = "step items (MouseEnter i) s"
    have e: "?e = (if \<not> isSubmenuOpen s then setFocusIndex (int i) s else s)
        \<lparr>hoverTimeout := Some \<lparr>deadline = now s + 200, t_index = i,
             t_hasMenu = (menu item \<noteq> None), t_isSubmenuOpen = isSubmenuOpen s\<rparr>\<rparr>"
      using assms(1) en by (rule step_MouseEnter_enabled)
    have t: "hoverTimeout ?e = Some \<lparr>deadline = now s + 200, t_index = i,
             t_hasMenu = (menu item \<noteq> None), t_isSubmenuOpen = isSubmenuOpen s\<rparr>"
      and n: "now ?e = now s"
      unfolding e by (simp_all add: setFocusIndex_def)
    have "run items (map Elapse ds) ?e = ?e\<lparr>now := now ?e + sum_list ds\<rparr>"
      using t by (rule run_Elapse_not_due) (simp add: n assms(2))
    then have s': "?s' = ?e\<lparr>now := now ?e + sum_list ds, hoverTimeout := None\<rparr>"
      by (simp add: leave clearTimeout_def)
    show ?thesis
    proof (cases "isSubmenuOpen s")
      case True
      then have "focusIndex ?s' = focusIndex s" "isSubmenuOpen ?s' = isSubmenuOpen s"
        unfolding s' e by simp_all
      then show ?thesis using subMenu_cong [of "run items (hover_leave i ds) s" s items] by simp
    next
      case False
      then have "isSubmenuOpen ?s' = isSubmenuOpen s"
        unfolding s' e by (simp add: setFocusIndex_def)
      with False show ?thesis by (simp add: subMenu_closed)
    qed
  qed
  have 5: "isSubmenuOpen ?s' = isSubmenuOpen s \<and>
      (subMenu items ?s' = None \<or> subMenu items ?s' = subMenu items s)"
    if dis: "isDisabled item" and nt: "hoverTimeout s = None"
  proof -
    have "run items (MouseEnter i # map Elapse ds) s =
        s\<lparr>focusIndex := - 1, now := now s + sum_list ds\<rparr>"
      using assms(1) dis nt by (rule run_MouseEnter_disabled)
    then have "?s' = s\<lparr>focusIndex := - 1, now := now s + sum_list ds, hoverTimeout := None\<rparr>"
      using assms(1)
      by (simp add: hover_leave_def onMouseLeave_def clearTimeout_def step.simps
          run_Cons run_append run_Nil)
    then show ?thesis by (simp add: subMenu_no_focus)
  qed
  from 4 5 have 6: "\<not> isDisabled item \<or> hoverTimeout s = None \<longrightarrow>
            isSubmenuOpen ?s' = isSubmenuOpen s \<and>
            (subMenu items ?s' = None \<or> subMenu items ?s' = subMenu items s)"
    by (cases "isDisabled item") blast+
  show ?thesis
    apply (rule conjI [OF 1])
    apply (rule conjI [OF 2])
    apply (rule conjI [OF 3])
    apply (rule 6)
    done
qed

theorem hover_leave_before_delay_witness:
  "button_at example_menu 2 = Some (Button (utf16 ''export'') False False None
        (Some [Button (utf16 ''pdf'') False False None None])) \<and>
   sum_list [50, 100 :: nat] < 200 \<and>
   run example_menu (hover_leave 2 [50, 100]) example_state =
     \<lparr>focusIndex = 2, isSubmenuOpen = False, hoverTimeout = None, now = 1150\<rparr> \<and>
   run example_menu (map Elapse [500]) (run example_menu (hover_leave 2 [50, 100]) example_state) =
     \<lparr>focusIndex = 2, isSubmenuOpen = False, hoverTimeout = None, now = 1650\<rparr> \<and>
   subMenu example_menu (run example_menu (hover_leave 2 [50, 100]) example_state) = None"
proof -
  have lt: "sum_list [50, 100 :: nat] < 200" by simp
  have r: "run example_menu (hover_leave 2 [50, 100]) example_state =
     \<lparr>focusIndex = 2, isSubmenuOpen = False, hoverTimeout = None, now = 1150\<rparr>"
    by (simp add: hover_leave_def run_def step.simps button_at_example_menu onMouseEnter_def
        onMouseLeave_def clearTimeout_def setFocusIndex_def advance_def example_state_def Let_def)
  from hover_leave_before_delay [OF button_at_example_menu(3) lt, of example_state "[500]"]
  have "run example_menu (map Elapse [500])
          (run example_menu (hover_leave 2 [50, 100]) example_state) =
        (run example_menu (hover_leave 2 [50, 100]) example_state)
          \<lparr>now := now (run example_menu (hover_leave 2 [50, 100]) example_state) + sum_list [500]\<rparr>"
    and "subMenu example_menu (run example_menu (hover_leave 2 [50, 100]) example_state) = None \<or>
         subMenu example_menu (run example_menu (hover_leave 2 [50, 100]) example_state) =
           subMenu example_menu example_state"
    by simp_all
  moreover have "subMenu example_menu example_state = None"
    by (simp add: subMenu_closed example_state_def)
  ultimately show ?thesis
    using lt by (simp add: button_at_example_menu r)
qed

subsection \<open>Positioning the submenu\<close>



lemma positionEffect_anchor_missing:
  "anchor_missing getElementById items s \<Longrightarrow>
   positionEffect getElementById getPosition items s ref = ref"
  by (auto simp: anchor_missing_def positionEffect_def split: option.splits)

lemma render_mount:
  "render_subMenuRef items s fresh None =
     (if subMenu items s = None then None
      else Some (fresh, \<lparr>visibility = Hidden, top_px = None, left_px = None\<rparr>))"
  by (simp add: render_subMenuRef_def split: option.splits)

lemma render_cases:
  "render_subMenuRef items s fresh ref = None \<or>
   render_subMenuRef items s fresh ref =
     Some (fresh, \<lparr>visibility = Hidden, top_px = None, left_px = None\<rparr>) \<and> ref = None \<or>
   render_subMenuRef items s fresh ref = ref"
  by (simp add: render_subMenuRef_def split: option.splits)

lemma positionEffect_cases:
  assumes "positionEffect getElementById getPosition items s ref = Some node"
  shows "ref = Some node \<or>
         visibility (snd node) = Hidden \<or>
         resolves getPosition items (s, getElementById, fresh, True) node"
  using assms
  by (auto simp: positionEffect_def resolves_def split: option.splits prod.splits if_splits)

lemma commit_visible:
  assumes "commit getPosition items c ref = Some node" and "visibility (snd node) = Visible"
  shows "resolves getPosition items c node \<or> ref = Some node"
proof -
  obtain s getElementById fresh effect_runs where c: "c = (s, getElementById, fresh, effect_runs)"
    by (cases c)
  let ?m = "render_subMenuRef items s fresh ref"
  have m: "?m = Some node \<Longrightarrow> ref = Some node"
    using render_cases [of items s fresh ref] assms(2) by auto
  show ?thesis
  proof (cases effect_runs)
    case False
    with assms(1) c have "?m = Some node" by (simp add: commit_def)
    with m show ?thesis by simp
  next
    case True
    with assms(1) c have "positionEffect getElementById getPosition items s ?m = Some node"
      by (simp add: commit_def)
    from positionEffect_cases [OF this, of fresh] assms(2) m True c show ?thesis
      by auto
  qed
qed

lemma resolved_by_commits:
  "resolved_by getPosition items cs (commits getPosition items cs)"
proof (induction cs rule: rev_induct)
  case Nil
  show ?case by (simp add: commits_def resolved_by_def)
next
  case (snoc c cs)
  have step: "commits getPosition items (cs @ [c]) =
      commit getPosition items c (commits getPosition items cs)"
    by (simp add: commits_def)
  show ?case
  proof (cases "commits getPosition items (cs @ [c])")
    case None
    then show ?thesis by (simp add: resolved_by_def)
  next
    case (Some node)
    show ?thesis
    proof (cases "visibility (snd node)")
      case Hidden
      with Some show ?thesis by (simp add: resolved_by_def)
    next
      case Visible
      from Some step have "commit getPosition items c (commits getPosition items cs) = Some node"
        by simp
      from commit_visible [OF this Visible]
      show ?thesis
      proof
        assume "resolves getPosition items c node"
        with Some show ?thesis by (auto simp: resolved_by_def)
      next
        assume "commits getPosition items cs = Some node"
        with snoc Visible Some show ?thesis by (auto simp: resolved_by_def)
      qed
    qed
  qed
qed

lemma commit_anchor_missing:
  "anchor_missing getElementById items s \<Longrightarrow>
   commit getPosition items (s, getElementById, fresh, effect_runs) ref =
     render_subMenuRef items s fresh ref"
  by (simp add: commit_def Let_def positionEffect_anchor_missing)

lemma hidden_node_render:
  "hidden_node ref \<Longrightarrow> hidden_node (render_subMenuRef items s fresh ref)"
  by (auto simp: hidden_node_def render_subMenuRef_def split: option.splits)

lemma render_mounted:
  "subMenu items s \<noteq> None \<Longrightarrow> render_subMenuRef items s fresh (Some node) = Some node"
  by (auto simp: render_subMenuRef_def)

text \<open>
  C7 (as amended). The node of a submenu is mounted hidden and without a position.
  After any sequence of commits from the unmounted state it is hidden, or it carries the
  top and left that the resolver returned, in one of these commits, for the element of
  the item focused in that commit; and a commit leaves it visible only by resolving its
  position in this way or by leaving a visible node exactly as it was. When the anchor
  is missing (no focused item, or no element for it in the document) the effect does
  nothing: the commit is the render alone, a hidden submenu stays hidden, and a mounted
  node whose submenu is still rendered stays as it was, also when it is visible.
\<close>

theorem submenu_visible_by_resolution:
  "render_subMenuRef items s (fresh :: 'el) None =
     (if subMenu items s = None then None
      else Some (fresh, \<lparr>visibility = Hidden, top_px = None, left_px = None :: 'c option\<rparr>)) \<and>
   resolved_by (getPosition :: 'el \<Rightarrow> 'el \<Rightarrow> 'c \<times> 'c) items cs (commits getPosition items cs) \<and>
   (commit getPosition items c ref = Some node \<and> visibility (snd node) = Visible \<longrightarrow>
      resolves getPosition items c node \<or> ref = Some node) \<and>
   (anchor_missing getElementById items s \<longrightarrow>
      commit getPosition items (s, getElementById, fresh, effect_runs) ref =
        render_subMenuRef items s fresh ref \<and>
      (hidden_node ref \<longrightarrow>
         hidden_node (commit getPosition items (s, getElementById, fresh, effect_runs) ref)) \<and>
      (subMenu items s \<noteq> None \<and> ref = Some node \<longrightarrow>
         commit getPosition items (s, getElementById, fresh, effect_runs) ref = Some node))"
proof -
  have 1: "render_subMenuRef items s fresh None =
     (if subMenu items s = None then None
      else Some (fresh, \<lparr>visibility = Hidden, top_px = None, left_px = None :: 'c option\<rparr>))"
    by (rule render_mount)
  have 2: "resolved_by getPosition items cs (commits getPosition items cs)"
    by (rule resolved_by_commits)
  have 3: "commit getPosition items c ref = Some node \<and> visibility (snd node) = Visible \<longrightarrow>
      resolves getPosition items c node \<or> ref = Some node"
    using commit_visible [of getPosition items c ref node] by blast
  have 4: "anchor_missing getElementById items s \<longrightarrow>
      commit getPosition items (s, getElementById, fresh, effect_runs) ref =
        render_subMenuRef items s fresh ref \<and>
      (hidden_node ref \<longrightarrow>
         hidden_node (commit getPosition items (s, getElementById, fresh, effect_runs) ref)) \<and>
      (subMenu items s \<noteq> None \<and> ref = Some node \<longrightarrow>
         commit getPosition items (s, getElementById, fresh, effect_runs) ref = Some node)"
    by (auto simp: commit_anchor_missing hidden_node_render render_mounted)
  show ?thesis
    apply (rule conjI [OF 1])
    apply (rule conjI [OF 2])
    apply (rule conjI [OF 3])
    apply (rule 4)
    done
qed

lemma button_at_two_submenus:
  "button_at two_submenus 0 = Some (Button (utf16 ''export'') False False None
        (Some [Button (utf16 ''pdf'') False False None None]))"
  "button_at two_submenus (Suc 0) = Some (Button (utf16 ''share'') False False None
        (Some [Button (utf16 ''link'') False False None None]))"
  by (simp_all add: button_at_def map_of_rendered two_submenus_def)

lemma export_open_state:
  "export_open = \<lparr>focusIndex = 0, isSubmenuOpen = True, hoverTimeout = None, now = 200\<rparr>"
  by (simp add: export_open_def run_def step.simps button_at_two_submenus onMouseEnter_def
      clearTimeout_def setFocusIndex_def setIsSubmenuOpen_def hoverCallback_def advance_def
      initial_state_def Let_def)

lemma share_open_state:
  "share_open = \<lparr>focusIndex = 1, isSubmenuOpen = True, hoverTimeout = None, now = 400\<rparr>"
  by (simp add: share_open_def export_open_state run_def step.simps button_at_two_submenus
      onMouseEnter_def onMouseLeave_def clearTimeout_def setFocusIndex_def setIsSubmenuOpen_def
      hoverCallback_def advance_def Let_def)

theorem submenu_visible_by_resolution_witness:
  "render_subMenuRef two_submenus export_open (3::nat) None =
     Some (3, \<lparr>visibility = Hidden, top_px = None, left_px = None :: int option\<rparr>) \<and>
   commit example_getPosition two_submenus (export_open, example_dom, 3, True) None =
     Some (3, \<lparr>visibility = Visible, top_px = Some 70, left_px = Some 220\<rparr>) \<and>
   resolves example_getPosition two_submenus (export_open, example_dom, 3, True)
     (3, \<lparr>visibility = Visible, top_px = Some 70, left_px = Some 220\<rparr>) \<and>
   anchor_missing example_dom two_submenus share_open \<and>
   hidden_node (commit example_getPosition two_submenus (share_open, example_dom, 4, True) None) \<and>
   commit example_getPosition two_submenus (share_open, example_dom, 4, True)
     (Some (3, \<lparr>visibility = Visible, top_px = Some 70, left_px = Some 220\<rparr>)) =
     Some (3, \<lparr>visibility = Visible, top_px = Some 70, left_px = Some 220\<rparr>)"
proof -
  let ?node = "(3::nat, \<lparr>visibility = Visible, top_px = Some (70::int), left_px = Some (220::int)\<rparr>)"
  let ?c = "(export_open, example_dom, 3::nat, True)"
  have sm: "subMenu two_submenus export_open \<noteq> None" "subMenu two_submenus share_open \<noteq> None"
    by (simp_all add: subMenu_def focusedItem_def at_index_def two_submenus_def export_open_state
        share_open_state)
  have am: "anchor_missing example_dom two_submenus share_open"
    by (simp add: anchor_missing_def focusedItem_def at_index_def two_submenus_def share_open_state
        example_dom_def utf16_def)
  have cm: "commit example_getPosition two_submenus ?c None = Some ?node"
    by (simp add: commit_def render_subMenuRef_def positionEffect_def subMenu_def
        focusedItem_def at_index_def two_submenus_def export_open_state example_dom_def
        example_getPosition_def utf16_def)
  have hn: "hidden_node (None :: (nat \<times> int style) option)"
    by (simp add: hidden_node_def)
  from submenu_visible_by_resolution [where items = two_submenus and s = export_open
      and fresh = 3 and getPosition = example_getPosition and cs = "[]" and c = ?c
      and ref = None and node = ?node] sm(1) cm
  have a: "render_subMenuRef two_submenus export_open (3::nat) None =
     Some (3, \<lparr>visibility = Hidden, top_px = None, left_px = None :: int option\<rparr>)"
    and b: "resolves example_getPosition two_submenus ?c ?node"
    by simp_all
  from submenu_visible_by_resolution [where items = two_submenus and s = share_open
      and fresh = 4 and getPosition = example_getPosition and cs = "[]" and c = ?c
      and ref = None and getElementById = example_dom and effect_runs = True] am hn
  have c: "hidden_node (commit example_getPosition two_submenus
      (share_open, example_dom, 4, True) None)"
    by blast
  from submenu_visible_by_resolution [where items = two_submenus and s = share_open
      and fresh = 4 and getPosition = example_getPosition and cs = "[]" and c = ?c
      and ref = "Some ?node" and node = ?node and getElementById = example_dom
      and effect_runs = True] am sm(2)
  have d: "commit example_getPosition two_submenus (share_open, example_dom, 4, True)
     (Some ?node) = Some ?node"
    by blast
  from a cm b am c d show ?thesis by simp
qed

text \<open>
  C7 as stated fails: the pointer rests on the first button, whose submenu is resolved
  and shown; it moves on to the second button, whose element the document does not have.
  The level keeps the node, which now holds the second button's menu, visible at the
  coordinates resolved for the first button, although the anchor is missing.
\<close>

theorem submenu_stale_position_counterexample:
  "export_open = \<lparr>focusIndex = 0, isSubmenuOpen = True, hoverTimeout = None, now = 200\<rparr> \<and>
   share_open = \<lparr>focusIndex = 1, isSubmenuOpen = True, hoverTimeout = None, now = 400\<rparr> \<and>
   commits example_getPosition two_submenus [(export_open, example_dom, 3, True)] =
     Some (3, \<lparr>visibility = Visible, top_px = Some 70, left_px = Some 220\<rparr>) \<and>
   commits example_getPosition two_submenus
     [(export_open, example_dom, 3, True), (share_open, example_dom, 4, True)] =
     Some (3, \<lparr>visibility = Visible, top_px = Some 70, left_px = Some 220\<rparr>) \<and>
   subMenu two_submenus share_open = Some [Button (utf16 ''link'') False False None None] \<and>
   anchor_missing example_dom two_submenus share_open"
  by (simp add: export_open_state share_open_state commits_def commit_def
      render_subMenuRef_def positionEffect_def subMenu_def focusedItem_def at_index_def
      anchor_missing_def two_submenus_def example_dom_def example_getPosition_def utf16_def)

subsection \<open>The open levels of a menu tree\<close>

lemma level_onClicks_leaf:
  assumes "(item, click) \<in> set (level_onClicks onClose items s)"
    and "item = Button k h d oc None"
  shows "click = onAction onClose (Some item)"
proof -
  from assms(1) obtain index it where
    el: "(item, click) \<in> set (case it of
          Separator k h \<Rightarrow> []
        | Button k h d oc m \<Rightarrow> [(it, \<lambda>w. snd (onClick_button onClose it index s w))]
        | Popup k h \<Rightarrow> [(it, onClick_popup onClose)])"
    by (auto simp: level_onClicks_def)
  show ?thesis
  proof (cases it)
    case (Separator k' h')
    with el show ?thesis by simp
  next
    case (Button k' h' d' oc' m')
    with el assms(2) show ?thesis
      by (auto simp: onClick_button_def)
  next
    case (Popup k' h')
    with el assms(2) show ?thesis by simp
  qed
qed

lemma Menu_onClicks_leaf:
  assumes "(item, click) \<in> set (Menu_onClicks onClose items ss)"
    and "item = Button k h d oc None"
  shows "click = onAction onClose (Some item)"
  using assms
proof (induction ss arbitrary: items)
  case Nil
  then show ?case by simp
next
  case (Cons s ss)
  then show ?case
    by (auto dest: level_onClicks_leaf split: option.splits)
qed

text \<open>
  C1 (as amended). For every button item and every \<open>onClose\<close> callback: when the
  item has no click handler, \<open>onAction\<close> is \<open>onClose\<close>; when its handler
  returns, \<open>onClose\<close> is invoked on the state the handler left; when its handler
  throws, the exception propagates to the embedding application with the state the
  handler left, whatever \<open>onClose\<close> is, so \<open>onClose\<close> is not invoked. The
  keyboard confirm of a focused button is \<open>onAction\<close> on that item, and so is the
  click on a button without a nested menu, at every open level of a menu tree; the click
  on a popup item, which hands \<open>onAction\<close> no item, is \<open>onClose\<close>.
\<close>

theorem onAction_handler_outcome:
  assumes "item = Button k h d oc m" and "at_index items i = Some item"
  shows "(oc = None \<longrightarrow> onAction onClose (Some item) w = onClose w) \<and>
         (oc = Some handler \<and> handler w = Returned w' \<longrightarrow>
            onAction onClose (Some item) w = onClose w') \<and>
         (oc = Some handler \<and> handler w = Thrown e w' \<longrightarrow>
            onAction onClose (Some item) w = Thrown e w') \<and>
         useFocus_onAction onClose items i w = onAction onClose (Some item) w \<and>
         (m = None \<longrightarrow>
            snd (onClick_button onClose item index s w) = onAction onClose (Some item) w) \<and>
         (m = None \<and> (item, click) \<in> set (Menu_onClicks onClose tree levels) \<longrightarrow>
            click w = onAction onClose (Some item) w) \<and>
         onClick_popup onClose w = onClose w \<and>
         onAction onClose None w = onClose w"
proof -
  have tree: "m = None \<and> (item, click) \<in> set (Menu_onClicks onClose tree levels) \<longrightarrow>
            click w = onAction onClose (Some item) w"
  proof (intro impI, elim conjE)
    assume "m = None" and "(item, click) \<in> set (Menu_onClicks onClose tree levels)"
    with assms(1) have "click = onAction onClose (Some item)"
      using Menu_onClicks_leaf [of item click onClose tree levels k h d oc] by simp
    then show "click w = onAction onClose (Some item) w" by simp
  qed
  from assms tree show ?thesis
    by (simp add: onAction_def useFocus_onAction_def onClick_button_def onClick_popup_def)
qed

theorem onAction_handler_outcome_witness:
  "onAction counting_onClose (Some (Button (utf16 ''copy'') False False None None)) 0 =
     Returned 1 \<and>
   onAction counting_onClose
     (Some (Button (utf16 ''rename'') False False (Some returning_onClick) None)) 0 =
     Returned 1 \<and>
   onAction counting_onClose
     (Some (Button (utf16 ''delete'') False False (Some throwing_onClick) None)) 5 =
     Thrown ''boom'' 5 \<and>
   useFocus_onAction counting_onClose
     [Button (utf16 ''rename'') False False (Some returning_onClick) None] 0 0 = Returned 1 \<and>
   snd (onClick_button counting_onClose
     (Button (utf16 ''rename'') False False (Some returning_onClick) None) 0 initial_state 0) =
     Returned 1 \<and>
   (Button (utf16 ''save'') False False (Some throwing_onClick) None,
    \<lambda>w. snd (onClick_button counting_onClose
       (Button (utf16 ''save'') False False (Some throwing_onClick) None) 0 initial_state w))
     \<in> set (Menu_onClicks counting_onClose example_tree example_levels) \<and>
   snd (onClick_button counting_onClose
       (Button (utf16 ''save'') False False (Some throwing_onClick) None) 0 initial_state 5) =
     Thrown ''boom'' 5"
proof -
  let ?copy = "Button (utf16 ''copy'') False False None None :: nat MenuItem"
  let ?rename = "Button (utf16 ''rename'') False False (Some returning_onClick) None"
  let ?delete = "Button (utf16 ''delete'') False False (Some throwing_onClick) None"
  let ?save = "Button (utf16 ''save'') False False (Some throwing_onClick) None"
  let ?click = "\<lambda>w. snd (onClick_button counting_onClose ?save 0 initial_state w)"
  have at: "at_index [x] 0 = Some x" for x :: "nat MenuItem"
    by (simp add: at_index_def)
  have "onAction counting_onClose (Some ?copy) 0 = Returned 1"
    using onAction_handler_outcome [where items = "[?copy]" and i = 0
        and onClose = counting_onClose and w = 0, OF refl at]
    by (simp add: counting_onClose_def)
  moreover
  have "returning_onClick 0 = Returned 0"
    by (simp add: returning_onClick_def)
  then have "onAction counting_onClose (Some ?rename) 0 = Returned 1 \<and>
    useFocus_onAction counting_onClose [?rename] 0 0 = Returned 1 \<and>
    snd (onClick_button counting_onClose ?rename 0 initial_state 0) = Returned 1"
    using onAction_handler_outcome [where items = "[?rename]" and i = 0
        and onClose = counting_onClose and w = 0 and handler = returning_onClick and w' = 0
        and index = 0 and s = initial_state, OF refl at]
    by (simp add: counting_onClose_def)
  moreover
  have thr: "throwing_onClick 5 = Thrown ''boom'' 5"
    by (simp add: throwing_onClick_def)
  then have "onAction counting_onClose (Some ?delete) 5 = Thrown ''boom'' 5"
    using onAction_handler_outcome [where items = "[?delete]" and i = 0
        and onClose = counting_onClose and w = 5 and handler = throwing_onClick
        and e = "''boom''" and w' = 5, OF refl at]
    by simp
  moreover
  have mem: "(?save, ?click) \<in> set (Menu_onClicks counting_onClose example_tree example_levels)"
    by (simp add: example_tree_def example_levels_def level_onClicks_def rendered_def
        subMenu_def focusedItem_def at_index_def)
  moreover
  from thr mem have "?click 5 = Thrown ''boom'' 5"
    using onAction_handler_outcome [where items = "[?save]" and i = 0
        and onClose = counting_onClose and w = 5 and handler = throwing_onClick
        and e = "''boom''" and w' = 5 and click = ?click and tree = example_tree
        and levels = example_levels, OF refl at]
    by simp
  ultimately show ?thesis by simp
qed

text \<open>
  C1 as stated fails: with a handler that throws, \<open>onAction\<close> ends with the
  exception and the close counter of the embedding application is still \<open>0\<close>.
\<close>

theorem onAction_throwing_counterexample:
  "onAction counting_onClose
     (Some (Button (utf16 ''delete'') False False (Some throwing_onClick) None)) 0 =
   Thrown ''boom'' 0"
  by (simp add: onAction_def throwing_onClick_def)

text \<open>
  C2 (as amended). For every nesting of menus and every state of its open levels, a
  click on a rendered leaf button (one without a nested menu) at any level, whose click
  handler is absent or returns, invokes the \<open>onClose\<close> given to the root exactly
  once, on the state the handler left: every level was handed the root's callback.
\<close>

theorem leaf_click_closes_root_once:
  assumes "(item, click) \<in> set (Menu_onClicks onClose items ss)"
    and "item = Button k h d oc None"
    and "(case oc of None \<Rightarrow> Returned w | Some handler \<Rightarrow> handler w) = Returned w'"
  shows "click w = onClose w'"
proof -
  from assms(1,2) have "click = onAction onClose (Some item)"
    by (rule Menu_onClicks_leaf)
  with assms(2,3) show ?thesis
    by (auto simp: onAction_def split: option.splits)
qed

theorem leaf_click_closes_root_once_witness:
  "(Button (utf16 ''open'') False False (Some returning_onClick) None,
    \<lambda>w. snd (onClick_button counting_onClose
       (Button (utf16 ''open'') False False (Some returning_onClick) None) 1 initial_state w))
     \<in> set (Menu_onClicks counting_onClose example_tree example_levels) \<and>
   returning_onClick 0 = Returned 0 \<and>
   snd (onClick_button counting_onClose
       (Button (utf16 ''open'') False False (Some returning_onClick) None) 1 initial_state 0) =
     Returned 1"
proof -
  let ?item = "Button (utf16 ''open'') False False (Some returning_onClick) None"
  let ?click = "\<lambda>w. snd (onClick_button counting_onClose ?item 1 initial_state w)"
  have mem: "(?item, ?click) \<in> set (Menu_onClicks counting_onClose example_tree example_levels)"
    by (simp add: example_tree_def example_levels_def level_onClicks_def rendered_def
        subMenu_def focusedItem_def at_index_def)
  have ret: "(case Some returning_onClick of None \<Rightarrow> Returned 0 | Some handler \<Rightarrow> handler 0) =
      Returned (0::nat)"
    by (simp add: returning_onClick_def)
  from leaf_click_closes_root_once [OF mem refl ret]
  have "?click 0 = counting_onClose 0" .
  with mem show ?thesis
    by (simp add: returning_onClick_def counting_onClose_def)
qed

text \<open>
  C2 as stated fails: in a two-level tree whose submenu is open, the clicks on
  the parent button, on a leaf whose handler throws and on a leaf whose handler returns
  leave the close counter at \<open>0\<close>, \<open>0\<close> and \<open>1\<close>: the throwing leaf never
  reaches \<open>onClose\<close>.
\<close>

theorem leaf_click_throwing_counterexample:
  "click_outcomes counting_onClose example_tree example_levels 0 =
     [Returned 0, Thrown ''boom'' 0, Returned 1]"
  by (simp add: click_outcomes_def example_tree_def example_levels_def level_onClicks_def
      rendered_def subMenu_def focusedItem_def at_index_def onClick_button_def onAction_def
      throwing_onClick_def returning_onClick_def counting_onClose_def initial_state_def)

subsection \<open>Keyboard navigation\<close>


lemma focusTargets_navTargets: "focusTargets items = navTargets focusable items"
  by (simp add: focusTargets_def navTargets_def)

lemma nextFocus_navigateNext: "nextFocus items i = navigateNext focusable items i"
  unfolding nextFocus_def navigateNext_def focusTargets_navTargets by (rule refl)














subsection \<open>What the user can do to a level\<close>



















section \<open>Properties: JSON.parse after JSON.stringify\<close>

lemma ch_values:
  "ch CHR ''0'' = 48" "ch CHR ''9'' = 57" "ch CHR ''-'' = 45" "ch CHR ''.'' = 46"
  "ch CHR ''e'' = 101" "ch CHR ''E'' = 69" "ch CHR '','' = 44" "ch CHR '']'' = 93"
  "ch CHR ''}'' = 125" "ch CHR ''['' = 91" "ch CHR ''{'' = 123" "ch CHR '':'' = 58"
  "ch CHR ''u'' = 117" "ch CHR ''b'' = 98" "ch CHR ''f'' = 102" "ch CHR ''n'' = 110"
  "ch CHR ''r'' = 114" "ch CHR ''t'' = 116" "ch CHR ''/'' = 47" "ch CHR ''a'' = 97"
  "ch CHR ''A'' = 65" "ch CHR ''F'' = 70"
  by (simp_all add: ch_def)

lemma unat_digit_char: "d < 10 \<Longrightarrow> unat (digit_char d) = 48 + d"
  unfolding digit_char_def by (rule of_nat_inverse [OF refl]) simp

lemma is_digit_digit_char: "d < 10 \<Longrightarrow> is_digit (digit_char d)"
  by (simp add: is_digit_def ch_values word_le_nat_alt unat_digit_char)

lemma digit_val_digit_char: "d < 10 \<Longrightarrow> digit_val (digit_char d) = d"
  by (simp add: digit_val_def unat_digit_char)

lemma decimal_digits: "c \<in> set (decimal n) \<Longrightarrow> is_digit c"
proof (induction n arbitrary: c rule: decimal.induct)
  case (1 n)
  show ?case
  proof (cases "n < 10")
    case True
    with "1.prems" show ?thesis
      by (simp add: decimal.simps [of n] is_digit_digit_char)
  next
    case False
    with "1.prems" "1.IH" show ?thesis
      by (auto simp: decimal.simps [of n] is_digit_digit_char)
  qed
qed

lemma decimal_not_Nil: "decimal n \<noteq> []"
  by (subst decimal.simps) simp

lemma digits_val_append: "digits_val (ds @ [c]) = 10 * digits_val ds + digit_val c"
  by (simp add: digits_val_def)

lemma digits_val_decimal: "digits_val (decimal n) = n"
proof (induction n rule: decimal.induct)
  case (1 n)
  show ?case
  proof (cases "n < 10")
    case True
    then show ?thesis
      by (simp add: decimal.simps [of n] digits_val_def digit_val_digit_char)
  next
    case False
    with "1.IH" show ?thesis
      by (simp add: decimal.simps [of n] digits_val_append digit_val_digit_char)
  qed
qed

lemma hd_decimal: "hd (decimal n) = digit_char 0 \<Longrightarrow> n < 10"
proof (induction n rule: decimal.induct)
  case (1 n)
  show ?case
  proof (rule ccontr)
    assume "\<not> n < 10"
    then have big: "10 \<le> n" by simp
    then have "hd (decimal n) = hd (decimal (n div 10))"
      by (simp add: decimal.simps [of n] decimal_not_Nil)
    with "1.prems" "1.IH" big have "n div 10 < 10" by simp
    moreover from big have "n div 10 \<noteq> 0" by simp
    ultimately have "decimal (n div 10) = [digit_char (n div 10)]"
      by (simp add: decimal.simps [of "n div 10"])
    with \<open>hd (decimal n) = hd (decimal (n div 10))\<close> "1.prems"
    have "digit_char (n div 10) = digit_char 0" by simp
    then have "unat (digit_char (n div 10)) = unat (digit_char 0)" by simp
    with \<open>n div 10 < 10\<close> \<open>n div 10 \<noteq> 0\<close> show False
      by (simp add: unat_digit_char)
  qed
qed

lemma length_decimal_small: "n < 10 \<Longrightarrow> length (decimal n) = 1"
  by (simp add: decimal.simps [of n])

lemma delimited_not_digit: "delimited rest \<Longrightarrow> rest = [] \<or> \<not> is_digit (hd rest)"
  by (auto simp: delimited_def is_digit_def ch_values)

lemma delimited_skip_ws: "delimited rest \<Longrightarrow> skip_ws rest = rest"
  by (cases rest) (auto simp: delimited_def skip_ws_def is_json_ws_def ch_values)

lemma takeWhile_prefix:
  assumes "\<And>x. x \<in> set xs \<Longrightarrow> P x" and "ys = [] \<or> \<not> P (hd ys)"
  shows "takeWhile P (xs @ ys) = xs" and "dropWhile P (xs @ ys) = ys"
proof -
  from assms(2) have "takeWhile P ys = []" and "dropWhile P ys = ys"
    by (cases ys; auto)+
  with assms(1) show "takeWhile P (xs @ ys) = xs" and "dropWhile P (xs @ ys) = ys"
    by (simp_all add: takeWhile_append2 dropWhile_append2)
qed

lemma digit_not_minus: "is_digit c \<Longrightarrow> c \<noteq> ch CHR ''-''"
  by (auto simp: is_digit_def ch_values)

lemma parse_number_decimal:
  assumes "delimited rest"
  shows "takeWhile is_digit (decimal n @ rest) = decimal n"
    and "dropWhile is_digit (decimal n @ rest) = rest"
  using takeWhile_prefix [of "decimal n" is_digit rest] decimal_digits delimited_not_digit [OF assms]
  by blast+

lemma no_leading_zero: "\<not> (hd (decimal n) = ch CHR ''0'' \<and> 1 < length (decimal n))"
proof
  assume a: "hd (decimal n) = ch CHR ''0'' \<and> 1 < length (decimal n)"
  then have "hd (decimal n) = digit_char 0"
    by (simp add: digit_char_def ch_values)
  then have "n < 10" by (rule hd_decimal)
  then have "length (decimal n) = 1" by (rule length_decimal_small)
  with a show False by simp
qed

lemma delimited_not_fraction:
  "delimited rest \<Longrightarrow>
   \<not> (rest \<noteq> [] \<and> (hd rest = ch CHR ''.'' \<or> hd rest = ch CHR ''e'' \<or> hd rest = ch CHR ''E''))"
  by (auto simp: delimited_def ch_values)

lemma parse_number_Number_toString:
  assumes "delimited rest"
  shows "parse_number (Number_toString i @ rest) = Some (JNum i, rest)"
proof (cases "i < 0")
  case True
  let ?n = "nat (- i)"
  have tx: "Number_toString i @ rest = ch CHR ''-'' # decimal ?n @ rest"
    using True by (simp add: Number_toString_def)
  show ?thesis
    unfolding tx parse_number_def
    using True no_leading_zero [of ?n] delimited_not_fraction [OF assms]
    by (simp add: parse_number_decimal [OF assms] digits_val_decimal decimal_not_Nil Let_def)
next
  case False
  let ?n = "nat i"
  have tx: "Number_toString i @ rest = decimal ?n @ rest"
    using False by (simp add: Number_toString_def)
  have "is_digit (hd (decimal ?n))"
    using decimal_digits [of "hd (decimal ?n)" ?n] decimal_not_Nil [of ?n] by simp
  then have nm: "hd (decimal ?n @ rest) \<noteq> ch CHR ''-''"
    using decimal_not_Nil [of ?n] by (simp add: digit_not_minus)
  show ?thesis
    unfolding tx parse_number_def
    using False nm no_leading_zero [of ?n] delimited_not_fraction [OF assms]
    by (simp add: parse_number_decimal [OF assms] digits_val_decimal decimal_not_Nil Let_def)
qed

lemma hex_val_hex_char: "d < 16 \<Longrightarrow> hex_val (hex_char d) = Some d"
proof (cases "d < 10")
  case True
  have "unat (of_nat (48 + d) :: jschar) = 48 + d"
    by (rule of_nat_inverse [OF refl]) (use True in simp)
  with True show ?thesis
    by (simp add: hex_val_def hex_char_def ch_values word_le_nat_alt del: of_nat_add)
next
  case False
  assume "d < 16"
  have "unat (of_nat (87 + d) :: jschar) = 87 + d"
    by (rule of_nat_inverse [OF refl]) (use \<open>d < 16\<close> in simp)
  with False \<open>d < 16\<close> show ?thesis
    by (simp add: hex_val_def hex_char_def ch_values word_le_nat_alt del: of_nat_add)
qed

lemma hex_digits_value:
  fixes n :: nat
  shows "((n div 4096 * 16 + n div 256 mod 16) * 16 + n div 16 mod 16) * 16 + n mod 16 = n"
proof -
  have "n div 4096 = n div 16 div 16 div 16" and "n div 256 = n div 16 div 16"
    by (simp_all add: div_mult2_eq)
  then show ?thesis by simp
qed

lemma hex4_val_hex4:
  assumes "hex4 c = [h1, h2, h3, h4]"
  shows "hex4_val h1 h2 h3 h4 = Some c"
proof -
  let ?n = "unat c"
  have "?n < 2 ^ 16" using unsigned_less [of c, where 'a = nat] by simp
  then have lt: "?n div 4096 < 16" by simp
  from assms have h: "h1 = hex_char (?n div 4096)" "h2 = hex_char (?n div 256 mod 16)"
    "h3 = hex_char (?n div 16 mod 16)" "h4 = hex_char (?n mod 16)"
    by (simp_all add: hex4_def)
  have "hex4_val h1 h2 h3 h4 =
      Some (of_nat (((?n div 4096 * 16 + ?n div 256 mod 16) * 16 + ?n div 16 mod 16) * 16 + ?n mod 16))"
    unfolding h hex4_val_def by (simp only: hex_val_hex_char lt mod_less_divisor zero_less_numeral
        prod.case option.case)
  also have "\<dots> = Some (of_nat ?n)"
    by (simp only: hex_digits_value)
  finally show ?thesis by simp
qed

lemma parse_chars_raw:
  assumes "c \<noteq> 0x22" and "c \<noteq> 0x5C" and "\<not> c < 0x20"
  shows "parse_chars (c # tail) = map_option (apfst ((#) c)) (parse_chars tail)"
  using assms by simp

lemma parse_chars_escape:
  assumes "unescape e = Some x" and "e \<noteq> ch CHR ''u''"
  shows "parse_chars (0x5C # e # tail) = map_option (apfst ((#) x)) (parse_chars tail)"
  using assms by simp

lemma parse_chars_hex:
  assumes "hex4 c = [h1, h2, h3, h4]"
  shows "parse_chars (0x5C # ch CHR ''u'' # h1 # h2 # h3 # h4 # tail) =
           map_option (apfst ((#) c)) (parse_chars tail)"
  using hex4_val_hex4 [OF assms] by simp

lemma hex4_list: "\<exists>h1 h2 h3 h4. hex4 c = [h1, h2, h3, h4]"
  by (simp add: hex4_def)

lemma parse_chars_quote_char:
  "parse_chars (quote_char c @ tail) = map_option (apfst ((#) c)) (parse_chars tail)"
proof -
  obtain h1 h2 h3 h4 where h: "hex4 c = [h1, h2, h3, h4]"
    using hex4_list by blast
  consider "c = 0x08" | "c = 0x09" | "c = 0x0A" | "c = 0x0C" | "c = 0x0D" | "c = 0x22" | "c = 0x5C"
    | "c \<notin> {0x08, 0x09, 0x0A, 0x0C, 0x0D, 0x22, 0x5C}"
        "c < 0x20 \<or> is_high_surrogate c \<or> is_low_surrogate c"
    | "c \<notin> {0x08, 0x09, 0x0A, 0x0C, 0x0D, 0x22, 0x5C}"
        "\<not> (c < 0x20 \<or> is_high_surrogate c \<or> is_low_surrogate c)"
    by blast
  then show ?thesis
  proof cases
    case 8
    then have "quote_char c = 0x5C # ch CHR ''u'' # hex4 c"
      by (simp add: quote_char_def)
    with h show ?thesis by (simp only: append_Cons append_Nil parse_chars_hex)
  next
    case 9
    then have "quote_char c = [c]" and "c \<noteq> 0x22" and "c \<noteq> 0x5C" and "\<not> c < 0x20"
      by (simp_all add: quote_char_def)
    then show ?thesis by simp
  qed (simp_all add: quote_char_def unescape_def ch_values)
qed

lemma surrogate_raw:
  assumes "is_high_surrogate c \<or> is_low_surrogate c"
  shows "c \<noteq> 0x22" and "c \<noteq> 0x5C" and "\<not> c < 0x20"
  using assms
  by (auto simp: is_high_surrogate_def is_low_surrogate_def word_le_nat_alt word_less_nat_alt)

lemma parse_chars_quote_chars:
  "parse_chars (quote_chars s @ 0x22 # rest) = Some (s, rest)"
proof (induction s rule: quote_chars.induct)
  case 1
  show ?case by simp
next
  case (2 c)
  have "parse_chars (quote_char c @ 0x22 # rest) = Some ([c], rest)"
    by (simp only: parse_chars_quote_char) simp
  then show ?case by simp
next
  case (3 c d cs)
  show ?case
  proof (cases "is_high_surrogate c \<and> is_low_surrogate d")
    case True
    then have q: "quote_chars (c # d # cs) = c # d # quote_chars cs" by simp
    from True have "parse_chars (c # d # quote_chars cs @ 0x22 # rest) =
        map_option (apfst ((#) c)) (map_option (apfst ((#) d)) (parse_chars (quote_chars cs @ 0x22 # rest)))"
      by (simp only: parse_chars_raw [OF surrogate_raw] simp_thms)
    with True "3.IH"(1) q show ?thesis by simp
  next
    case False
    then have q: "quote_chars (c # d # cs) = quote_char c @ quote_chars (d # cs)" by auto
    have "parse_chars ((quote_char c @ quote_chars (d # cs)) @ 0x22 # rest) =
        map_option (apfst ((#) c)) (parse_chars (quote_chars (d # cs) @ 0x22 # rest))"
      by (simp only: append_assoc parse_chars_quote_char)
    with False "3.IH"(2) q show ?thesis by simp
  qed
qed

lemma parse_chars_QuoteJSONString:
  "QuoteJSONString s @ rest = 0x22 # quote_chars s @ 0x22 # rest"
  by (simp add: QuoteJSONString_def)

lemma json_serialize: "json v \<Longrightarrow> serialize v = Some (ser v)"
  by (cases v) (simp_all add: ser_def)

lemma ser_JArr: "ser (JArr xs) = ch CHR ''['' # join (map ser xs) (utf16 '','') @ [ch CHR '']'']"
  by (simp add: ser_def [abs_def])

lemma ser_JObj:
  assumes "\<forall>kv\<in>set fs. json (snd kv)"
  shows "ser (JObj fs) =
     ch CHR ''{'' # join (map (\<lambda>kv. QuoteJSONString (fst kv) @ ch CHR '':'' # ser (snd kv)) fs) (utf16 '','')
       @ [ch CHR ''}'']"
proof -
  have "concat (map (\<lambda>(k, v). case serialize v of None \<Rightarrow> []
              | Some t \<Rightarrow> [QuoteJSONString k @ ch CHR '':'' # t]) fs) =
        map (\<lambda>kv. QuoteJSONString (fst kv) @ ch CHR '':'' # ser (snd kv)) fs"
    using assms by (induction fs) (auto simp: json_serialize)
  then show ?thesis by (simp add: ser_def)
qed

lemma Number_toString_start: "\<exists>c t. Number_toString i = c # t \<and> (c = ch CHR ''-'' \<or> is_digit c)"
proof (cases "i < 0")
  case True
  then show ?thesis by (simp add: Number_toString_def)
next
  case False
  obtain c t where d: "decimal (nat i) = c # t"
    using decimal_not_Nil [of "nat i"] by (cases "decimal (nat i)") auto
  then have "is_digit c" using decimal_digits [of c "nat i"] by simp
  with False d show ?thesis by (simp add: Number_toString_def)
qed

lemma ser_start: "json v \<Longrightarrow> \<exists>c t. ser v = c # t \<and> value_start c"
proof (cases v)
  case (JNum i)
  with Number_toString_start [of i] show ?thesis
    by (auto simp: ser_def value_start_def)
next
  case (JArr xs)
  then show ?thesis by (simp add: ser_JArr value_start_def)
next
  case (JObj fs)
  assume "json v"
  with JObj show ?thesis by (simp add: ser_JObj value_start_def)
qed (simp_all add: ser_def value_start_def utf16_def ch_def QuoteJSONString_def)

lemma value_start_skip_ws: "value_start c \<Longrightarrow> skip_ws (c # t) = c # t"
  by (auto simp: value_start_def skip_ws_def is_json_ws_def is_digit_def ch_values)

lemma skip_ws_ser: "json v \<Longrightarrow> skip_ws (ser v @ rest) = ser v @ rest"
  using ser_start [of v] value_start_skip_ws by fastforce

lemma delimitedI [simp]:
  "delimited (ch CHR '','' # t)" "delimited (ch CHR '']'' # t)" "delimited (ch CHR ''}'' # t)"
  "delimited []"
  by (simp_all add: delimited_def)

lemma parse_value_scalar:
  assumes "skip_ws text = c # cs" and "c \<noteq> ch CHR ''[''" and "c \<noteq> ch CHR ''{''" and "c \<noteq> 0x22"
  shows "parse_value (Suc n) text =
     (if starts_with (utf16 ''null'') (c # cs) then Some (JNull, drop 4 (c # cs))
      else if starts_with (utf16 ''true'') (c # cs) then Some (JBool True, drop 4 (c # cs))
      else if starts_with (utf16 ''false'') (c # cs) then Some (JBool False, drop 5 (c # cs))
      else parse_number (c # cs))"
  using assms by simp

lemma parse_value_JNull:
  "delimited rest \<Longrightarrow> parse_value (Suc n) (ser JNull @ rest) = Some (JNull, rest)"
  by (simp add: ser_def utf16_def skip_ws_def is_json_ws_def ch_def starts_with_def)

lemma parse_value_JBool:
  "delimited rest \<Longrightarrow> parse_value (Suc n) (ser (JBool b) @ rest) = Some (JBool b, rest)"
  by (simp add: ser_def utf16_def skip_ws_def is_json_ws_def ch_def starts_with_def)

lemma parse_value_JNum:
  assumes "delimited rest"
  shows "parse_value (Suc n) (ser (JNum i) @ rest) = Some (JNum i, rest)"
proof -
  obtain c t where s: "Number_toString i = c # t" and c: "c = ch CHR ''-'' \<or> is_digit c"
    using Number_toString_start by blast
  have sk: "skip_ws (Number_toString i @ rest) = c # (t @ rest)"
    using s c value_start_skip_ws [of c "t @ rest"] by (auto simp: value_start_def)
  from c have ne: "c \<noteq> ch CHR ''[''" "c \<noteq> ch CHR ''{''" "c \<noteq> 0x22"
    "c \<noteq> ch CHR ''n''" "c \<noteq> ch CHR ''t''" "c \<noteq> ch CHR ''f''"
    by (auto simp: is_digit_def ch_values)
  then have "parse_value (Suc n) (Number_toString i @ rest) = parse_number (c # (t @ rest))"
    unfolding parse_value_scalar [OF sk ne(1-3)]
    by (simp add: starts_with_def utf16_def ch_def)
  with s parse_number_Number_toString [OF assms, of i] show ?thesis
    by (simp add: ser_def)
qed

lemma parse_value_JStr:
  "parse_value (Suc n) (ser (JStr s) @ rest) = Some (JStr s, rest)"
  by (simp add: ser_def QuoteJSONString_def skip_ws_def is_json_ws_def ch_values
      parse_chars_quote_chars)

lemma bracket_not_comma: "ch CHR '']'' \<noteq> ch CHR '',''" "ch CHR ''}'' \<noteq> ch CHR '',''"
  by (simp_all add: ch_values)

lemma parse_elements_roundtrip:
  assumes "\<And>x fuel rest. x \<in> set xs \<Longrightarrow> length (ser x) \<le> fuel \<Longrightarrow> delimited rest \<Longrightarrow>
             parse_value fuel (ser x @ rest) = Some (x, rest)"
    and "xs \<noteq> []" and "length (join (map ser xs) (utf16 '','')) < n" and "delimited rest"
  shows "parse_elements n acc (join (map ser xs) (utf16 '','') @ ch CHR '']'' # rest) =
           Some (JArr (acc @ xs), rest)"
  using assms
proof (induction xs arbitrary: acc n)
  case Nil
  then show ?case by simp
next
  case (Cons x xs)
  from Cons.prems(3) obtain m where n: "n = Suc m" by (cases n) auto
  show ?case
  proof (cases xs)
    case Nil
    with Cons.prems(3) n have "length (ser x) \<le> m" by simp
    then have "parse_value m (ser x @ ch CHR '']'' # rest) = Some (x, ch CHR '']'' # rest)"
      by (intro Cons.prems(1)) simp_all
    with Nil n show ?thesis
      by (simp add: delimited_skip_ws bracket_not_comma)
  next
    case (Cons y ys)
    let ?E = "join (map ser xs) (utf16 '','')"
    from Cons have j: "join (map ser (x # xs)) (utf16 '','') = ser x @ ch CHR '','' # ?E"
      by (simp add: utf16_def ch_def)
    from Cons.prems(3) n j have lx: "length (ser x) \<le> m" and lE: "length ?E < m" by simp_all
    from lx have "parse_value m (ser x @ ch CHR '','' # ?E @ ch CHR '']'' # rest) =
        Some (x, ch CHR '','' # ?E @ ch CHR '']'' # rest)"
      by (intro Cons.prems(1)) simp_all
    moreover have "parse_elements m (acc @ [x]) (?E @ ch CHR '']'' # rest) =
        Some (JArr ((acc @ [x]) @ xs), rest)"
      using Cons lE Cons.prems(1,4) by (intro Cons.IH) simp_all
    ultimately show ?thesis
      using n j by (simp add: delimited_skip_ws)
  qed
qed

lemma define_property_fresh:
  "k \<notin> fst ` set acc \<Longrightarrow> define_property k v acc = acc @ [(k, v)]"
  by (induction acc) auto

lemma parse_members_roundtrip:
  assumes "\<And>kv fuel rest. kv \<in> set fs \<Longrightarrow> length (ser (snd kv)) \<le> fuel \<Longrightarrow> delimited rest \<Longrightarrow>
             parse_value fuel (ser (snd kv) @ rest) = Some (snd kv, rest)"
    and "fs \<noteq> []" and "distinct (map fst (acc @ fs))"
    and "length (join (map (\<lambda>kv. QuoteJSONString (fst kv) @ ch CHR '':'' # ser (snd kv)) fs)
            (utf16 '','')) < n"
    and "delimited rest"
  shows "parse_members n acc
           (join (map (\<lambda>kv. QuoteJSONString (fst kv) @ ch CHR '':'' # ser (snd kv)) fs) (utf16 '','')
            @ ch CHR ''}'' # rest) =
         Some (JObj (acc @ fs), rest)"
  using assms
proof (induction fs arbitrary: acc n)
  case Nil
  then show ?case by simp
next
  case (Cons kv fs)
  obtain k v where kv: "kv = (k, v)" by (cases kv)
  let ?M = "\<lambda>kv. QuoteJSONString (fst kv) @ ch CHR '':'' # ser (snd kv)"
  from Cons.prems(4) obtain m where n: "n = Suc m" by (cases n) auto
  from Cons.prems(3) kv have fresh: "k \<notin> fst ` set acc" by auto
  have key: "\<And>tail. parse_chars (quote_chars k @ 0x22 # tail) = Some (k, tail)"
    by (rule parse_chars_quote_chars)
  show ?case
  proof (cases fs)
    case Nil
    with Cons.prems(4) n kv have "length (ser v) \<le> m"
      by (simp add: QuoteJSONString_def)
    then have "parse_value m (ser v @ ch CHR ''}'' # rest) = Some (v, ch CHR ''}'' # rest)"
      using Cons.prems(1) [of kv m "ch CHR ''}'' # rest"] kv by simp
    with Nil n kv fresh show ?thesis
      by (simp add: QuoteJSONString_def skip_ws_def is_json_ws_def ch_values key
          define_property_fresh)
  next
    case (Cons kv' fs')
    let ?rest = "join (map ?M fs) (utf16 '','')"
    from Cons have j: "join (map ?M (kv # fs)) (utf16 '','') = ?M kv @ ch CHR '','' # ?rest"
      by (simp add: utf16_def ch_def)
    from Cons.prems(4) n j kv have lv: "length (ser v) \<le> m" and lr: "length ?rest < m"
      by (simp_all add: QuoteJSONString_def)
    from lv have "parse_value m (ser v @ ch CHR '','' # ?rest @ ch CHR ''}'' # rest) =
        Some (v, ch CHR '','' # ?rest @ ch CHR ''}'' # rest)"
      using Cons.prems(1) [of kv m "ch CHR '','' # ?rest @ ch CHR ''}'' # rest"] kv by simp
    moreover have "parse_members m (acc @ [kv]) (?rest @ ch CHR ''}'' # rest) =
        Some (JObj ((acc @ [kv]) @ fs), rest)"
      using Cons lr Cons.prems(1,3,5) by (intro Cons.IH) simp_all
    ultimately show ?thesis
      using n j kv fresh
      by (simp add: QuoteJSONString_def skip_ws_def is_json_ws_def ch_values key
          define_property_fresh)
  qed
qed

declare parse_value.simps [simp del] parse_elements.simps [simp del] parse_members.simps [simp del]

lemma value_start_not_close:
  "value_start c \<Longrightarrow> c \<noteq> ch CHR '']'' \<and> c \<noteq> ch CHR ''}''"
  by (auto simp: value_start_def is_digit_def ch_values)

lemma parse_value_roundtrip:
  "json v \<Longrightarrow> length (ser v) \<le> fuel \<Longrightarrow> delimited rest \<Longrightarrow>
   parse_value fuel (ser v @ rest) = Some (v, rest)"
proof (induction v arbitrary: fuel rest)
  case JUndefined
  then show ?case by simp
next
  case JNull
  then obtain n where "fuel = Suc n" by (cases fuel) (auto simp: ser_def utf16_def)
  with JNull show ?case by (simp add: parse_value_JNull)
next
  case (JBool b)
  then obtain n where "fuel = Suc n" by (cases fuel; cases b) (auto simp: ser_def utf16_def)
  with JBool show ?case by (simp add: parse_value_JBool)
next
  case (JNum i)
  from Number_toString_start [of i] JNum.prems(2) obtain n where "fuel = Suc n"
    by (cases fuel) (auto simp: ser_def)
  with JNum show ?case by (simp add: parse_value_JNum)
next
  case (JStr s)
  then obtain n where "fuel = Suc n" by (cases fuel) (auto simp: ser_def QuoteJSONString_def)
  then show ?case by (simp add: parse_value_JStr)
next
  case (JArr xs)
  let ?E = "join (map ser xs) (utf16 '','')"
  from JArr.prems(2) obtain n where n: "fuel = Suc n" and lE: "length ?E < n"
    by (cases fuel) (auto simp: ser_JArr)
  show ?case
  proof (cases xs)
    case Nil
    with n show ?thesis
      by (simp add: ser_JArr skip_ws_def is_json_ws_def ch_values parse_value.simps)
  next
    case (Cons x ys)
    with JArr.prems(1) have "json x" by simp
    then obtain c t where st: "ser x = c # t" and vs: "value_start c"
      using ser_start by blast
    have E: "?E = c # tl ?E"
      using Cons st by (cases ys) simp_all
    have sk: "skip_ws (?E @ ch CHR '']'' # rest) = c # (tl ?E @ ch CHR '']'' # rest)"
      using value_start_skip_ws [OF vs, of "tl ?E @ ch CHR '']'' # rest"] E
      by (metis append_Cons)
    have el: "parse_elements n [] (?E @ ch CHR '']'' # rest) = Some (JArr ([] @ xs), rest)"
    proof (rule parse_elements_roundtrip)
      fix x fuel rest
      assume "x \<in> set xs" and "length (ser x) \<le> fuel" and "delimited rest"
      with JArr.IH [of x fuel rest] JArr.prems(1)
      show "parse_value fuel (ser x @ rest) = Some (x, rest)" by simp
    qed (use Cons lE JArr.prems(3) in simp_all)
    have "parse_value (Suc n) (ch CHR ''['' # ?E @ ch CHR '']'' # rest) =
        parse_elements n [] (?E @ ch CHR '']'' # rest)"
      using sk value_start_not_close [OF vs]
      by (simp add: skip_ws_def is_json_ws_def ch_values parse_value.simps)
    with el n show ?thesis by (simp add: ser_JArr)
  qed
next
  case (JObj fs)
  let ?M = "\<lambda>kv. QuoteJSONString (fst kv) @ ch CHR '':'' # ser (snd kv)"
  let ?E = "join (map ?M fs) (utf16 '','')"
  from JObj.prems(1) have js: "\<forall>kv\<in>set fs. json (snd kv)" and dist: "distinct (map fst fs)"
    by simp_all
  note s = ser_JObj [OF js]
  from JObj.prems(2) obtain n where n: "fuel = Suc n" and lE: "length ?E < n"
    by (cases fuel) (auto simp: s)
  show ?case
  proof (cases fs)
    case Nil
    with n show ?thesis
      by (simp add: ser_JObj skip_ws_def is_json_ws_def ch_values parse_value.simps)
  next
    case (Cons kv ys)
    have E: "?E = 0x22 # tl ?E"
      using Cons by (cases ys) (simp_all add: QuoteJSONString_def)
    have sk: "skip_ws (?E @ ch CHR ''}'' # rest) = 0x22 # (tl ?E @ ch CHR ''}'' # rest)"
      using E by (metis (no_types, lifting) append_Cons value_start_def value_start_skip_ws)
    have el: "parse_members n [] (?E @ ch CHR ''}'' # rest) = Some (JObj ([] @ fs), rest)"
    proof (rule parse_members_roundtrip)
      fix kv fuel rest
      assume kv: "kv \<in> set fs" and "length (ser (snd kv)) \<le> fuel" and "delimited rest"
      moreover have "snd kv \<in> Basic_BNFs.snds kv"
        by (cases kv) simp
      moreover from kv js have "json (snd kv)" by blast
      ultimately show "parse_value fuel (ser (snd kv) @ rest) = Some (snd kv, rest)"
        using JObj.IH [of kv "snd kv" fuel rest] by simp
    qed (use Cons lE dist JObj.prems(3) in simp_all)
    have "parse_value (Suc n) (ch CHR ''{'' # ?E @ ch CHR ''}'' # rest) =
        parse_members n [] (?E @ ch CHR ''}'' # rest)"
      using sk by (simp add: skip_ws_def is_json_ws_def ch_values parse_value.simps)
    with el n show ?thesis by (simp add: s)
  qed
qed

lemma JSON_parse_text_ser: "json v \<Longrightarrow> JSON_parse_text (ser v) = Inr v"
  using parse_value_roundtrip [of v "Suc (length (ser v))" "[]"]
  by (simp add: JSON_parse_text_def skip_ws_def)

lemma JSON_parse_stringify: "json v \<Longrightarrow> JSON_parse (JSON_stringify v) = Inr v"
  by (simp add: JSON_parse_def JSON_stringify_def json_serialize JSON_parse_text_ser)

lemma serialize_None: "serialize v = None \<longleftrightarrow> v = JUndefined"
  by (cases v) simp_all

lemma fst_kept_members: "(k, v) \<in> set (kept_members fs) \<Longrightarrow> k \<in> fst ` set fs"
  by (induction fs) (auto split: if_splits)

lemma distinct_kept_members: "distinct (map fst fs) \<Longrightarrow> distinct (map fst (kept_members fs))"
proof (induction fs)
  case Nil
  show ?case by simp
next
  case (Cons kv fs)
  obtain k v where "kv = (k, v)" by (cases kv)
  with Cons show ?case by (auto dest: fst_kept_members)
qed

lemma ser_JUndefined: "ser JUndefined = ser JNull"
  by (simp add: ser_def)

lemma kept_elements_ser:
  assumes "\<And>x. x \<in> set xs \<Longrightarrow> x \<noteq> JUndefined \<Longrightarrow> json (kept x) \<and> ser (kept x) = ser x"
  shows "(\<forall>x\<in>set (kept_elements xs). json x) \<and> map ser (kept_elements xs) = map ser xs"
  using assms
proof (induction xs)
  case Nil
  show ?case by simp
next
  case (Cons x xs)
  then have "(\<forall>x\<in>set (kept_elements xs). json x) \<and> map ser (kept_elements xs) = map ser xs"
    by simp
  moreover have "x \<noteq> JUndefined \<Longrightarrow> json (kept x) \<and> ser (kept x) = ser x"
    using Cons.prems [of x] by simp
  ultimately show ?case by (cases "x = JUndefined") (simp_all add: ser_JUndefined)
qed

lemma kept_members_ser:
  assumes "\<And>kv. kv \<in> set fs \<Longrightarrow> snd kv \<noteq> JUndefined \<Longrightarrow>
             json (kept (snd kv)) \<and> ser (kept (snd kv)) = ser (snd kv)"
  shows "(\<forall>kv\<in>set (kept_members fs). json (snd kv)) \<and>
         map (\<lambda>kv. QuoteJSONString (fst kv) @ ch CHR '':'' # ser (snd kv)) (kept_members fs) =
         concat (map (\<lambda>(k, v). case serialize v of None \<Rightarrow> []
              | Some t \<Rightarrow> [QuoteJSONString k @ ch CHR '':'' # t]) fs)"
  using assms
proof (induction fs)
  case Nil
  show ?case by simp
next
  case (Cons kv fs)
  obtain k v where kv: "kv = (k, v)" by (cases kv)
  from Cons have IH: "(\<forall>kv\<in>set (kept_members fs). json (snd kv)) \<and>
         map (\<lambda>kv. QuoteJSONString (fst kv) @ ch CHR '':'' # ser (snd kv)) (kept_members fs) =
         concat (map (\<lambda>(k, v). case serialize v of None \<Rightarrow> []
              | Some t \<Rightarrow> [QuoteJSONString k @ ch CHR '':'' # t]) fs)"
    by simp
  show ?case
  proof (cases "v = JUndefined")
    case True
    with IH kv show ?thesis by simp
  next
    case False
    with Cons.prems [of kv] kv have j: "json (kept v)" and s: "ser (kept v) = ser v" by auto
    from False obtain t where t: "serialize v = Some t"
      using serialize_None [of v] by (cases "serialize v") auto
    then have "ser v = t" by (simp add: ser_def)
    with IH kv False j s t show ?thesis by simp
  qed
qed

lemma kept_json_ser:
  "well_formed v \<Longrightarrow> v \<noteq> JUndefined \<Longrightarrow> json (kept v) \<and> ser (kept v) = ser v"
proof (induction v)
  case (JArr xs)
  have "(\<forall>x\<in>set (kept_elements xs). json x) \<and> map ser (kept_elements xs) = map ser xs"
    using JArr by (intro kept_elements_ser) simp
  then show ?case by (simp add: ser_JArr)
next
  case (JObj fs)
  have "(\<forall>kv\<in>set (kept_members fs). json (snd kv)) \<and>
         map (\<lambda>kv. QuoteJSONString (fst kv) @ ch CHR '':'' # ser (snd kv)) (kept_members fs) =
         concat (map (\<lambda>(k, v). case serialize v of None \<Rightarrow> []
              | Some t \<Rightarrow> [QuoteJSONString k @ ch CHR '':'' # t]) fs)"
  proof (rule kept_members_ser)
    fix kv
    assume kv: "kv \<in> set fs" and "snd kv \<noteq> JUndefined"
    moreover have "snd kv \<in> Basic_BNFs.snds kv" by (cases kv) simp
    moreover from kv JObj.prems(1) have "well_formed (snd kv)" by simp
    ultimately show "json (kept (snd kv)) \<and> ser (kept (snd kv)) = ser (snd kv)"
      using JObj.IH [of kv "snd kv"] by simp
  qed
  with JObj.prems(1) distinct_kept_members [of fs] show ?case
    by (simp add: ser_JObj) (simp add: ser_def)
qed simp_all

lemma JSON_parse_stringify_kept:
  assumes "well_formed v" and "v \<noteq> JUndefined"
  shows "JSON_parse (JSON_stringify v) = Inr (kept v)"
proof -
  from kept_json_ser [OF assms] have j: "json (kept v)" and s: "ser (kept v) = ser v"
    by simp_all
  from assms(2) obtain t where t: "serialize v = Some t"
    using serialize_None [of v] by (cases "serialize v") auto
  then have "ser v = t" by (simp add: ser_def)
  with t s JSON_parse_text_ser [OF j] show ?thesis
    by (simp add: JSON_parse_def JSON_stringify_def)
qed

section \<open>Properties: the share-extension store\<close>

lemma JSON_parse_text_object_Object: "JSON_parse_text (utf16 ''[object Object]'') = Inl SyntaxError"
  by (simp add: JSON_parse_text_def utf16_def skip_ws_def is_json_ws_def ch_def
      starts_with_def parse_number_def is_digit_def Let_def parse_value.simps parse_elements.simps)

lemma JSON_parse_JObj:
  "JSON_parse (JObj fs) =
     Inl (if utf16 ''toString'' \<in> fst ` set fs then TypeError else SyntaxError)"
  by (simp add: JSON_parse_def JSON_parse_text_object_Object)

text \<open>
  C10. \<open>restore\<close> applies \<open>JSON.parse\<close> to the result of \<open>JSON.parse\<close>. For
  every note that is an object (with one property per key), after
  \<open>setAppendNote(note)\<close> the first parse of the stored text returns the note as
  \<open>JSON.stringify\<close> kept it, and the second parse throws, so \<open>restore\<close> throws
  and restores nothing: a \<open>SyntaxError\<close> from the text \<open>[object Object]\<close>, or a
  \<open>TypeError\<close> when the note has a property \<open>toString\<close>.
\<close>

theorem restore_after_setAppendNote_throws:
  assumes "well_formed (JObj fs)"
  shows "JSON_parse (MMKV_getString (fst (setAppendNote (JObj fs) (storage, st)))
            StorageKeys_appendNote) = Inr (JObj (kept_members fs)) \<and>
         restore (setAppendNote (JObj fs) (storage, st)) =
           Inl (if utf16 ''toString'' \<in> fst ` set (kept_members fs) then TypeError
                else SyntaxError)"
proof -
  have first: "JSON_parse (JSON_stringify (JObj fs)) = Inr (JObj (kept_members fs))"
    using JSON_parse_stringify_kept [OF assms] by simp
  then show ?thesis
    by (simp add: setAppendNote_def restore_def MMKV_getString_def MMKV_setItem_def
        JSON_parse_JObj Let_def)
qed

theorem restore_after_setAppendNote_throws_witness:
  "well_formed example_note \<and>
   restore (setAppendNote example_note (empty_storage, initial_share_state)) = Inl SyntaxError"
proof -
  have wf: "well_formed (JObj [(utf16 ''id'', JNum 42), (utf16 ''title'', JStr [0x61, 0x22, 0x0A, 0xD800]),
           (utf16 ''tags'', JArr [JNull, JBool True, JObj []])])"
    by (simp add: utf16_def)
  from restore_after_setAppendNote_throws [OF wf, of empty_storage initial_share_state] wf
  show ?thesis
    by (simp add: example_note_def utf16_def)
qed

lemma StorageKeys_distinct:
  "StorageKeys_selectedNotebooks \<noteq> StorageKeys_appendNote"
  "StorageKeys_selectedTag \<noteq> StorageKeys_appendNote"
  by (simp_all add: StorageKeys_appendNote_def StorageKeys_selectedNotebooks_def
      StorageKeys_selectedTag_def utf16_def)

text \<open>A note that is a number comes back from \<open>restore\<close>: only the objects throw.\<close>

lemma restore_number_note:
  "restore (setAppendNote (JNum 5) (empty_storage, initial_share_state)) =
     Inr (empty_storage(StorageKeys_appendNote := JStr (utf16 ''5'')),
          initial_share_state\<lparr>appendNote := JNum 5, selectedNotebooks := JArr [],
            selectedTag := JArr []\<rparr>)"
proof -
  have s: "JSON_stringify (JNum 5) = JStr (utf16 ''5'')"
    by (simp add: JSON_stringify_def Number_toString_def decimal.simps digit_char_def utf16_def)
  have p: "JSON_parse (JStr (utf16 ''5'')) = Inr (JNum 5)" "JSON_parse (JNum 5) = Inr (JNum 5)"
    using JSON_parse_stringify [of "JNum 5"] s
    by (simp_all add: JSON_parse_def JSON_stringify_def Number_toString_def decimal.simps
        digit_char_def utf16_def)
  show ?thesis
    by (simp add: setAppendNote_def restore_def MMKV_getString_def MMKV_setItem_def s p Let_def
        empty_storage_def StorageKeys_distinct)
qed

end
